theory Spec2Isabelle
  imports Main
begin

section \<open>The persistence store\<close>

text \<open>
  The bot keeps two tables in a relational store, \<open>users\<close> and \<open>referrals\<close>, and
  reaches them only through the SQL statements written in \<open>index.js\<close>. A table is
  modelled as the list of its rows in storage order; a statement is a function on the
  store. Identifiers are Telegram's integers, \<open>referral_count\<close> is an integer column
  (the code itself clamps it with \<open>GREATEST(0, ...)\<close>, so it is not a natural number
  by type).

  \<open>index.js\<close> holds two versions of the bot, one after the other; the handlers
  modelled are those of the second, the webhook application with the broadcast
  endpoint. The first version issues the same statements in its start, rank, join and
  leave handlers.

  Events are handled one at a time. A statement on values of the column's type
  succeeds; losing the connection or the store is outside the model, so the only
  statement that can raise is one that binds the start parameter's text to
  \<open>referrer_id\<close>. How the store reads that text is not written in \<open>index.js\<close>; the
  two statements that bind it, and with them the start handler, take the store's
  reading as a parameter. The tables carry no constraint that the handlers do not establish
  themselves: the code checks for an existing row before each insert and nowhere
  relies on a rejected insert or a cascading delete.
\<close>

record user =
  telegram_id :: int
  username :: "string option"
  first_name :: string
  referral_count :: int

record referral =
  referrer_id :: int
  referred_id :: int
  is_active :: bool

record store =
  users :: "user list"
  referrals :: "referral list"

definition empty_store :: store where
  "empty_store = \<lparr>users = [], referrals = []\<rparr>"

datatype error = Invalid_text_representation string

subsection \<open>Conversions of the start parameter\<close>

text \<open>
  The start parameter is the text captured by \<open>/\/start(?: (.+))?/\<close>. It is converted
  twice: by JavaScript's \<open>Number(...)\<close> in the self-referral guard, and by the store
  when the text is bound to the \<open>referrer_id\<close> column. \<open>Number\<close> is library
  behaviour, written out here on byte strings with the ASCII white space: it
  follows the \<open>StringToNumber\<close> grammar (white space trimmed, the empty string is 0, signed
  decimal literals with fraction and exponent, \<open>Infinity\<close>, unsigned hexadecimal, octal
  and binary integers); its value is kept exactly as mantissa and decimal exponent, so
  the rounding to a double is not modelled (identifiers are below \<open>2^53\<close>).
\<close>

definition is_space :: "char \<Rightarrow> bool" where
  "is_space c = (c \<in> set [CHR '' '', CHR 0x09, CHR 0x0A, CHR 0x0B, CHR 0x0C, CHR 0x0D])"

definition trim :: "string \<Rightarrow> string" where
  "trim s = rev (dropWhile is_space (rev (dropWhile is_space s)))"

definition digit_val :: "char \<Rightarrow> nat option" where
  "digit_val c =
     (let n = of_char c :: nat in
      if 48 \<le> n \<and> n \<le> 57 then Some (n - 48)
      else if 97 \<le> n \<and> n \<le> 102 then Some (n - 87)
      else if 65 \<le> n \<and> n \<le> 70 then Some (n - 55)
      else None)"

definition is_digit_in :: "nat \<Rightarrow> char \<Rightarrow> bool" where
  "is_digit_in b c = (case digit_val c of None \<Rightarrow> False | Some d \<Rightarrow> d < b)"

definition digits_val :: "nat \<Rightarrow> string \<Rightarrow> nat" where
  "digits_val b s = foldl (\<lambda>a c. b * a + (case digit_val c of None \<Rightarrow> 0 | Some d \<Rightarrow> d)) 0 s"

datatype jsnum = NaN | Infty bool | Fin int int

text \<open>\<open>Fin m e\<close> is the number \<open>m * 10^e\<close>; \<open>Infty neg\<close> is plus or minus infinity.\<close>

definition exponent_part :: "string \<Rightarrow> int option" where
  "exponent_part s =
     (case s of
        [] \<Rightarrow> Some 0
      | c # r \<Rightarrow>
          if c = CHR ''e'' \<or> c = CHR ''E'' then
            (let (neg, ds) = (case r of
                                [] \<Rightarrow> (False, r)
                              | d # r' \<Rightarrow> if d = CHR ''-'' then (True, r')
                                          else if d = CHR ''+'' then (False, r') else (False, r))
             in if ds \<noteq> [] \<and> list_all (is_digit_in 10) ds
                then Some (if neg then - int (digits_val 10 ds) else int (digits_val 10 ds))
                else None)
          else None)"

definition unsigned_decimal :: "string \<Rightarrow> jsnum" where
  "unsigned_decimal s =
     (if s = ''Infinity'' then Infty False
      else
        (let ip = takeWhile (is_digit_in 10) s;
             r1 = dropWhile (is_digit_in 10) s;
             (fp, r2) = (case r1 of
                           [] \<Rightarrow> ([], r1)
                         | c # r \<Rightarrow> if c = CHR ''.''
                                     then (takeWhile (is_digit_in 10) r, dropWhile (is_digit_in 10) r)
                                     else ([], r1))
         in if ip = [] \<and> fp = [] then NaN
            else (case exponent_part r2 of
                    None \<Rightarrow> NaN
                  | Some e \<Rightarrow> Fin (int (digits_val 10 (ip @ fp))) (e - int (length fp)))))"

definition non_decimal :: "string \<Rightarrow> jsnum option" where
  "non_decimal s =
     (case s of
        z # x # ds \<Rightarrow>
          if z = CHR ''0'' then
            (let b = (if x = CHR ''x'' \<or> x = CHR ''X'' then 16
                      else if x = CHR ''o'' \<or> x = CHR ''O'' then 8
                      else if x = CHR ''b'' \<or> x = CHR ''B'' then 2 else (0::nat))
             in if b = 0 then None
                else if ds \<noteq> [] \<and> list_all (is_digit_in b) ds
                then Some (Fin (int (digits_val b ds)) 0) else Some NaN)
          else None
      | _ \<Rightarrow> None)"

definition negate :: "jsnum \<Rightarrow> jsnum" where
  "negate v = (case v of NaN \<Rightarrow> NaN | Infty neg \<Rightarrow> Infty (\<not> neg) | Fin m e \<Rightarrow> Fin (- m) e)"

definition Number :: "string \<Rightarrow> jsnum" where
  "Number str =
     (let s = trim str in
      case s of
        [] \<Rightarrow> Fin 0 0
      | c # r \<Rightarrow>
          (case non_decimal s of
             Some v \<Rightarrow> v
           | None \<Rightarrow>
               if c = CHR ''-'' then negate (unsigned_decimal r)
               else if c = CHR ''+'' then unsigned_decimal r
               else unsigned_decimal s))"

text \<open>\<open>Number(p) === n\<close> for an integer \<open>n\<close>: the two denote the same number.\<close>

definition strict_equal :: "jsnum \<Rightarrow> int \<Rightarrow> bool" where
  "strict_equal v n =
     (case v of
        Fin m e \<Rightarrow> if 0 \<le> e then m * 10 ^ nat e = n else m = n * 10 ^ nat (- e)
      | _ \<Rightarrow> False)"

text \<open>
  Modelled from the spec: the table declarations are not part of \<open>index.js\<close>. The spec
  gives users and referrals numeric identifiers (section 3: "a stable numeric
  identifier") and has the referral link carry the referrer's identifier as "a string
  convertible back to the numeric identifier". \<open>int8in\<close> is that conversion on the
  texts a link can carry: an optional sign and decimal digits, white space around them
  allowed, the value within the 64 bits of the store's widest integer column. On these
  texts every integer column reads the same number. On other texts stores differ (some
  accept a base prefix or a separator between digits, a text column accepts anything);
  \<open>int8in\<close> is \<open>None\<close> there, and it stands for the store only in results about
  events whose parameter it reads.
\<close>

definition int8in :: "string \<Rightarrow> int option" where
  "int8in str =
     (let s = trim str;
          (neg, ds) = (case s of
                         [] \<Rightarrow> (False, s)
                       | c # r \<Rightarrow> if c = CHR ''-'' then (True, r)
                                   else if c = CHR ''+'' then (False, r) else (False, s));
          v = (if neg then - int (digits_val 10 ds) else int (digits_val 10 ds))
      in if ds \<noteq> [] \<and> list_all (is_digit_in 10) ds
            \<and> - (2 ^ 63) \<le> v \<and> v \<le> 2 ^ 63 - 1
         then Some v
         else None)"

subsection \<open>The SQL statements of the handlers\<close>

text \<open>\<open>SELECT * FROM users WHERE telegram_id = $1\<close>\<close>

definition select_user :: "store \<Rightarrow> int \<Rightarrow> user list" where
  "select_user st tid = filter (\<lambda>u. telegram_id u = tid) (users st)"

text \<open>
  Modelled from the spec: the column default of \<open>referral_count\<close> is in the table
  declaration, which is not part of \<open>index.js\<close>; the spec's GetOrCreateUser "creates
  one with \<open>referral_count = 0\<close>". The statement is
  \<open>INSERT INTO users (telegram_id, username, first_name) VALUES ($1, $2, $3) RETURNING *\<close>.
\<close>

definition insert_user :: "store \<Rightarrow> int \<Rightarrow> string option \<Rightarrow> string \<Rightarrow> store \<times> user" where
  "insert_user st tid un fn =
     (let row = \<lparr>telegram_id = tid, username = un, first_name = fn, referral_count = 0\<rparr>
      in (st\<lparr>users := users st @ [row]\<rparr>, row))"

text \<open>\<open>SELECT * FROM referrals WHERE referred_id = $1\<close>\<close>

definition select_referral :: "store \<Rightarrow> int \<Rightarrow> referral list" where
  "select_referral st rid = filter (\<lambda>r. referred_id r = rid) (referrals st)"

text \<open>
  Modelled from the spec: the column default of \<open>is_active\<close> is in the table
  declaration, which is not part of \<open>index.js\<close>; the spec creates a referral "in
  state Pending", \<open>is_active = false\<close>. The statement is
  \<open>INSERT INTO referrals (referrer_id, referred_id) VALUES ($1, $2)\<close>, with the start
  parameter's text as \<open>$1\<close>; \<open>referrer_in\<close> is the store's reading of that text,
  \<open>None\<close> when the store rejects it, and then the statement raises and writes nothing.
\<close>

definition insert_referral ::
  "(string \<Rightarrow> int option) \<Rightarrow> store \<Rightarrow> string \<Rightarrow> int \<Rightarrow> error + store" where
  "insert_referral referrer_in st p rid =
     (case referrer_in p of
        None \<Rightarrow> Inl (Invalid_text_representation p)
      | Some r \<Rightarrow>
          Inr (st\<lparr>referrals := referrals st
                     @ [\<lparr>referrer_id = r, referred_id = rid, is_active = False\<rparr>]\<rparr>))"

text \<open>\<open>UPDATE referrals SET referrer_id = $1 WHERE referred_id = $2\<close>\<close>

definition update_referrer ::
  "(string \<Rightarrow> int option) \<Rightarrow> store \<Rightarrow> string \<Rightarrow> int \<Rightarrow> error + store" where
  "update_referrer referrer_in st p rid =
     (case referrer_in p of
        None \<Rightarrow> Inl (Invalid_text_representation p)
      | Some r \<Rightarrow>
          Inr (st\<lparr>referrals :=
                     map (\<lambda>x. if referred_id x = rid then x\<lparr>referrer_id := r\<rparr> else x)
                       (referrals st)\<rparr>))"

text \<open>\<open>SELECT referrer_id FROM referrals WHERE referred_id = $1 AND is_active = <b>\<close>\<close>

definition select_referrer :: "store \<Rightarrow> int \<Rightarrow> bool \<Rightarrow> int list" where
  "select_referrer st rid b =
     map referrer_id (filter (\<lambda>r. referred_id r = rid \<and> is_active r = b) (referrals st))"

text \<open>\<open>UPDATE referrals SET is_active = <b> WHERE referred_id = $1\<close>\<close>

definition set_active :: "store \<Rightarrow> int \<Rightarrow> bool \<Rightarrow> store" where
  "set_active st rid b =
     st\<lparr>referrals := map (\<lambda>x. if referred_id x = rid then x\<lparr>is_active := b\<rparr> else x)
                         (referrals st)\<rparr>"

text \<open>\<open>UPDATE users SET referral_count = referral_count + 1 WHERE telegram_id = $1\<close>\<close>

definition increment_count :: "store \<Rightarrow> int \<Rightarrow> store" where
  "increment_count st tid =
     st\<lparr>users := map (\<lambda>u. if telegram_id u = tid
                            then u\<lparr>referral_count := referral_count u + 1\<rparr> else u)
                     (users st)\<rparr>"

text \<open>
  \<open>UPDATE users SET referral_count = GREATEST(0, referral_count - 1) WHERE telegram_id = $1\<close>
\<close>

definition decrement_count :: "store \<Rightarrow> int \<Rightarrow> store" where
  "decrement_count st tid =
     st\<lparr>users := map (\<lambda>u. if telegram_id u = tid
                            then u\<lparr>referral_count := max 0 (referral_count u - 1)\<rparr> else u)
                     (users st)\<rparr>"

text \<open>\<open>DELETE FROM users WHERE telegram_id = $1\<close>\<close>

definition delete_user :: "store \<Rightarrow> int \<Rightarrow> store" where
  "delete_user st tid = st\<lparr>users := filter (\<lambda>u. telegram_id u \<noteq> tid) (users st)\<rparr>"

section \<open>Outbound messages\<close>

text \<open>
  Every \<open>bot.sendMessage\<close> of the modelled handlers is recorded with its recipient;
  the texts are named by constructors. A notification to the referrer of a start
  event is addressed with the parameter's text, as the code passes it.
\<close>

datatype recipient = Chat int | Chat_text string

datatype text_message =
    Welcome_referred
  | Welcome_back_new_referrer
  | Group_link
  | Referrer_notice
  | Referrer_notice_returning
  | Already_active_member
  | Welcome_menu
  | Something_went_wrong
  | Join_success
  | Left_notice
  | Rank_reply int nat
  | No_referrals_yet
  | Broadcast_text string

type_synonym outbox = "(recipient \<times> text_message) list"

section \<open>getOrCreateUser\<close>

definition getOrCreateUser :: "store \<Rightarrow> int \<Rightarrow> string option \<Rightarrow> string \<Rightarrow> store \<times> user" where
  "getOrCreateUser st telegramId un firstName =
     (case select_user st telegramId of
        [] \<Rightarrow> insert_user st telegramId un firstName
      | row # _ \<Rightarrow> (st, row))"

section \<open>The /start handler\<close>

text \<open>
  \<open>start_match\<close> is \<open>match[1]\<close>: \<open>None\<close> when the command carries no parameter. The
  handler has no transaction; a statement that raises leaves the earlier statements
  committed and the \<open>catch\<close> answers with the generic failure text. \<open>on_start_in\<close> is
  the handler over a store that reads the parameter with \<open>referrer_in\<close>; \<open>on_start\<close>
  is the handler over the decimal reading \<open>int8in\<close>.
\<close>

record start_msg =
  chat_id :: int
  from_id :: int
  from_username :: "string option"
  from_first_name :: string
  start_match :: "string option"

definition referral_case ::
  "(string \<Rightarrow> int option) \<Rightarrow> store \<Rightarrow> int \<Rightarrow> int \<Rightarrow> string \<Rightarrow> error + store \<times> outbox" where
  "referral_case referrer_in st chatId userId newReferrerId =
     (case select_referral st userId of
        [] \<Rightarrow>
          (case insert_referral referrer_in st newReferrerId userId of
             Inl e \<Rightarrow> Inl e
           | Inr st' \<Rightarrow>
               Inr (st', [(Chat chatId, Welcome_referred), (Chat chatId, Group_link),
                          (Chat_text newReferrerId, Referrer_notice)]))
      | existingReferral # _ \<Rightarrow>
          if \<not> is_active existingReferral then
            (case update_referrer referrer_in st newReferrerId userId of
               Inl e \<Rightarrow> Inl e
             | Inr st' \<Rightarrow>
                 Inr (st', [(Chat chatId, Welcome_back_new_referrer), (Chat chatId, Group_link),
                            (Chat_text newReferrerId, Referrer_notice_returning)]))
          else Inr (st, [(Chat chatId, Already_active_member)]))"

definition on_start_in ::
  "(string \<Rightarrow> int option) \<Rightarrow> store \<Rightarrow> start_msg \<Rightarrow> store \<times> outbox" where
  "on_start_in referrer_in st msg =
     (let chatId = chat_id msg;
          userId = from_id msg;
          st1 = fst (getOrCreateUser st userId (from_username msg) (from_first_name msg))
      in case start_match msg of
           None \<Rightarrow> (st1, [(Chat chatId, Welcome_menu)])
         | Some newReferrerId \<Rightarrow>
             if newReferrerId \<noteq> [] \<and> \<not> strict_equal (Number newReferrerId) userId then
               (case referral_case referrer_in st1 chatId userId newReferrerId of
                  Inl e \<Rightarrow> (st1, [(Chat chatId, Something_went_wrong)])
                | Inr res \<Rightarrow> res)
             else (st1, [(Chat chatId, Welcome_menu)]))"

definition on_start :: "store \<Rightarrow> start_msg \<Rightarrow> store \<times> outbox" where
  "on_start st msg = on_start_in int8in st msg"

section \<open>Group events\<close>

text \<open>
  Both listeners run \<open>BEGIN\<close>, one \<open>SELECT\<close>, two \<open>UPDATE\<close>s and \<open>COMMIT\<close>, or
  \<open>ROLLBACK\<close> when the \<open>SELECT\<close> finds nothing; processed one event after the
  other, the transaction is the composition of its two updates. The join listener
  looks at \<open>msg.new_chat_members[0]\<close> only; with no member it fails before it reaches
  the store.
\<close>

record member =
  member_id :: int
  member_first_name :: string

definition on_new_chat_members :: "store \<Rightarrow> member list \<Rightarrow> store \<times> outbox" where
  "on_new_chat_members st new_chat_members =
     (case new_chat_members of
        [] \<Rightarrow> (st, [])
      | newMember # _ \<Rightarrow>
          (let newMemberId = member_id newMember in
           case select_referrer st newMemberId False of
             [] \<Rightarrow> (st, [])
           | referrer # _ \<Rightarrow>
               (increment_count (set_active st newMemberId True) referrer,
                [(Chat referrer, Join_success)])))"

definition on_left_chat_member :: "store \<Rightarrow> member \<Rightarrow> store \<times> outbox" where
  "on_left_chat_member st left_chat_member =
     (let leftMemberId = member_id left_chat_member in
      case select_referrer st leftMemberId True of
        [] \<Rightarrow> (st, [])
      | referrer # _ \<Rightarrow>
          (set_active (decrement_count st referrer) leftMemberId False,
           [(Chat referrer, Left_notice)]))"

section \<open>The /rank handler\<close>

text \<open>
  The query ranks every row of \<open>users\<close> with \<open>RANK() OVER (ORDER BY referral_count DESC)\<close>
  and keeps the rows of the asking chat. The window function is written out as the
  store computes it: the rows are sorted by descending count and scanned once; a row
  that is a peer of the row before it keeps that row's rank, any other row takes its
  own position.
\<close>

definition order_by_count_desc :: "user list \<Rightarrow> user list" where
  "order_by_count_desc rows = sort_key (\<lambda>u. - referral_count u) rows"

fun rank_scan :: "nat \<Rightarrow> (int \<times> nat) option \<Rightarrow> int list \<Rightarrow> nat list" where
  "rank_scan pos prev [] = []"
| "rank_scan pos prev (k # ks) =
     (let rk = (case prev of
                  None \<Rightarrow> pos
                | Some (k', rk') \<Rightarrow> if k' = k then rk' else pos)
      in rk # rank_scan (Suc pos) (Some (k, rk)) ks)"

definition user_rank :: "store \<Rightarrow> (int \<times> int \<times> nat) list" where
  "user_rank st =
     (let rows = order_by_count_desc (users st)
      in map2 (\<lambda>u position. (telegram_id u, referral_count u, position))
           rows (rank_scan 1 None (map referral_count rows)))"

definition rankQuery :: "store \<Rightarrow> int \<Rightarrow> (nat \<times> int) list" where
  "rankQuery st chatId =
     map (\<lambda>(tid, c, position). (position, c))
       (filter (\<lambda>(tid, c, position). tid = chatId) (user_rank st))"

definition on_rank :: "store \<Rightarrow> int \<Rightarrow> outbox" where
  "on_rank st chatId =
     (case rankQuery st chatId of
        [] \<Rightarrow> [(Chat chatId, No_referrals_yet)]
      | (position, c) # _ \<Rightarrow>
          if c > 0 then [(Chat chatId, Rank_reply c position)]
          else [(Chat chatId, No_referrals_yet)])"

section \<open>Broadcast\<close>

text \<open>
  The transport is outside the program: \<open>send\<close> gives, for a recipient, what
  \<open>bot.sendMessage\<close> does there. A rejected send carries the HTTP status of
  \<open>err.response\<close> when there is one. The pause after every twentieth success changes
  no state and is left out.
\<close>

datatype send_result = Delivered | Rejected "nat option"

record broadcast_result =
  total :: nat
  success :: nat
  failed :: nat

fun broadcast_loop ::
  "(int \<Rightarrow> send_result) \<Rightarrow> string \<Rightarrow> int list \<Rightarrow> store \<times> nat \<times> nat \<times> outbox
     \<Rightarrow> store \<times> nat \<times> nat \<times> outbox" where
  "broadcast_loop send message [] acc = acc"
| "broadcast_loop send message (i # ids) (st, successCount, failureCount, out) =
     (case send i of
        Delivered \<Rightarrow>
          broadcast_loop send message ids
            (st, successCount + 1, failureCount, out @ [(Chat i, Broadcast_text message)])
      | Rejected status \<Rightarrow>
          broadcast_loop send message ids
            ((if status = Some 403 then delete_user st i else st),
             successCount, failureCount + 1, out @ [(Chat i, Broadcast_text message)]))"

definition broadcastMessage ::
  "(int \<Rightarrow> send_result) \<Rightarrow> store \<Rightarrow> string \<Rightarrow> store \<times> broadcast_result \<times> outbox" where
  "broadcastMessage send st message =
     (let userIds = map telegram_id (users st);
          (st', successCount, failureCount, out) =
             broadcast_loop send message userIds (st, 0, 0, [])
      in (st', \<lparr>total = successCount + failureCount, success = successCount,
                failed = failureCount\<rparr>, out))"

text \<open>
  \<open>app.post('/broadcast')\<close>: the body's \<open>message\<close> field is absent, a string, or some
  other JSON value.
\<close>

datatype body_field = Absent | Str string | Other_value

datatype http_response = Bad_request | Broadcast_completed nat nat

definition broadcast_endpoint ::
  "(int \<Rightarrow> send_result) \<Rightarrow> store \<Rightarrow> body_field \<Rightarrow> store \<times> http_response \<times> outbox" where
  "broadcast_endpoint send st field =
     (case field of
        Str message \<Rightarrow>
          if message = [] \<or> length (trim message) = 0 then (st, Bad_request, [])
          else (let (st', results, out) = broadcastMessage send st message
                in (st', Broadcast_completed (success results) (failed results), out))
      | _ \<Rightarrow> (st, Bad_request, []))"

section \<open>Sequences of events\<close>

text \<open>
  The three kinds of event of the referral state machine, handled in order; start
  events are handled by \<open>on_start\<close>.
\<close>

datatype event = Start start_msg | Joined "member list" | Left_chat member

fun handle :: "store \<Rightarrow> event \<Rightarrow> store" where
  "handle st (Start msg) = fst (on_start st msg)"
| "handle st (Joined ms) = fst (on_new_chat_members st ms)"
| "handle st (Left_chat m) = fst (on_left_chat_member st m)"

definition run :: "store \<Rightarrow> event list \<Rightarrow> store" where
  "run st evs = foldl handle st evs"

section \<open>Observations used in the properties\<close>

text \<open>
  \<open>count_of st u\<close> reads \<open>u\<close>'s \<open>referral_count\<close> (\<open>None\<close> when \<open>u\<close> has no row);
  \<open>active_referrals st u\<close> counts the referral rows with referrer \<open>u\<close> and
  \<open>is_active = true\<close>. The referral rows of a referred user \<open>b\<close> are
  \<open>select_referral st b\<close>.
\<close>

definition count_of :: "store \<Rightarrow> int \<Rightarrow> int option" where
  "count_of st u = (case select_user st u of [] \<Rightarrow> None | row # _ \<Rightarrow> Some (referral_count row))"

definition active_referrals :: "store \<Rightarrow> int \<Rightarrow> nat" where
  "active_referrals st u =
     length (filter (\<lambda>r. referrer_id r = u \<and> is_active r) (referrals st))"

definition user_ids :: "store \<Rightarrow> int list" where
  "user_ids st = map telegram_id (users st)"

text \<open>
  Concrete rows and events for the examples: a \<open>/start\<close> sent in the private chat of
  user \<open>u\<close>, a group member, and a user row with a given count.
\<close>

definition start_from :: "int \<Rightarrow> string option \<Rightarrow> start_msg" where
  "start_from u p =
     \<lparr>chat_id = u, from_id = u, from_username = None, from_first_name = ''user'',
      start_match = p\<rparr>"

definition member_of :: "int \<Rightarrow> member" where
  "member_of u = \<lparr>member_id = u, member_first_name = ''user''\<rparr>"

definition user_row :: "int \<Rightarrow> int \<Rightarrow> user" where
  "user_row u c = \<lparr>telegram_id = u, username = None, first_name = ''user'', referral_count = c\<rparr>"

definition referral_row :: "int \<Rightarrow> int \<Rightarrow> bool \<Rightarrow> referral" where
  "referral_row a b v = \<lparr>referrer_id = a, referred_id = b, is_active = v\<rparr>"

text \<open>
  A store reading for the examples: decimal texts as \<open>int8in\<close> reads them, and the text
  \<open>1_000\<close> as 1000, the way a store that allows a separator between digits reads it.
\<close>

definition separator_reading :: "string \<Rightarrow> int option" where
  "separator_reading s = (if s = ''1_000'' then Some 1000 else int8in s)"

text \<open>
  The state of the two tables that the handlers are meant to keep: one referral row
  per referred user, every referrer with a user row, and every user row's count equal
  to the number of active referral rows it is the referrer of. \<open>referrers_known\<close>
  says of a sequence of events that each start event whose parameter \<open>int8in\<close> reads
  names a referrer that has a user row at that moment (or the sender).
\<close>

definition consistent :: "store \<Rightarrow> bool" where
  "consistent st \<longleftrightarrow>
     distinct (map referred_id (referrals st))
     \<and> (\<forall>r \<in> set (referrals st). referrer_id r \<in> set (user_ids st))
     \<and> (\<forall>u \<in> set (users st). referral_count u = int (active_referrals st (telegram_id u)))"

definition referrer_known :: "store \<Rightarrow> event \<Rightarrow> bool" where
  "referrer_known st e =
     (case e of
        Start msg \<Rightarrow>
          (case start_match msg of
             None \<Rightarrow> True
           | Some p \<Rightarrow>
               (case int8in p of
                  None \<Rightarrow> True
                | Some a \<Rightarrow> a = from_id msg \<or> a \<in> set (user_ids st)))
      | _ \<Rightarrow> True)"

fun referrers_known :: "store \<Rightarrow> event list \<Rightarrow> bool" where
  "referrers_known st [] = True"
| "referrers_known st (e # es) = (referrer_known st e \<and> referrers_known (handle st e) es)"

section \<open>Number agrees with the decimal reading\<close>

lemma digit_not_symbol:
  assumes "is_digit_in 10 c"
  shows "c \<noteq> CHR ''x''" "c \<noteq> CHR ''X''" "c \<noteq> CHR ''o''" "c \<noteq> CHR ''O''"
    "c \<noteq> CHR ''b''" "c \<noteq> CHR ''B''" "c \<noteq> CHR ''-''" "c \<noteq> CHR ''+''"
    "c \<noteq> CHR ''.''" "c \<noteq> CHR ''I''"
  using assms by (auto simp: is_digit_in_def digit_val_def)

lemma non_decimal_digits:
  assumes "list_all (is_digit_in 10) s"
  shows "non_decimal s = None"
proof (cases s)
  case Nil
  then show ?thesis by (simp add: non_decimal_def)
next
  case (Cons z r)
  show ?thesis
  proof (cases r)
    case Nil
    with Cons show ?thesis by (simp add: non_decimal_def)
  next
    case (Cons x ds)
    with assms \<open>s = z # r\<close> have "is_digit_in 10 x" by simp
    from digit_not_symbol[OF this] Cons \<open>s = z # r\<close> show ?thesis
      by (simp add: non_decimal_def)
  qed
qed

lemma unsigned_decimal_digits:
  assumes "list_all (is_digit_in 10) s" "s \<noteq> []"
  shows "unsigned_decimal s = Fin (int (digits_val 10 s)) 0"
proof -
  from assms obtain c r where s: "s = c # r" by (cases s) auto
  with assms have "is_digit_in 10 c" by simp
  then have "c \<noteq> CHR ''I''" by (rule digit_not_symbol)
  then have ninf: "s \<noteq> ''Infinity''" using s by auto
  have tw: "takeWhile (is_digit_in 10) s = s" "dropWhile (is_digit_in 10) s = []"
    using assms(1) by (simp_all add: list_all_iff)
  show ?thesis using ninf assms(2)
    by (simp add: unsigned_decimal_def tw exponent_part_def)
qed

lemma Number_int8in:
  assumes "int8in p = Some a"
  shows "Number p = Fin a 0"
proof -
  define s where "s = trim p"
  show ?thesis
  proof (cases s)
    case Nil
    with assms show ?thesis by (simp add: int8in_def s_def[symmetric])
  next
    case (Cons c r)
    show ?thesis
    proof (cases "c = CHR ''-'' \<or> c = CHR ''+''")
      case True
      with assms Cons have d: "r \<noteq> []" "list_all (is_digit_in 10) r"
        by (auto simp: int8in_def s_def[symmetric] split: if_splits)
      have nd: "non_decimal s = None" using True Cons
        by (auto simp: non_decimal_def split: list.splits)
      from True show ?thesis
        using assms Cons d nd unsigned_decimal_digits[OF d(2) d(1)]
        by (auto simp: int8in_def Number_def Let_def s_def[symmetric] negate_def split: if_splits)
    next
      case False
      with assms Cons have d: "list_all (is_digit_in 10) s"
        by (auto simp: int8in_def s_def[symmetric] split: if_splits)
      have "s \<noteq> []" using Cons by simp
      from False show ?thesis
        using assms Cons non_decimal_digits[OF d] unsigned_decimal_digits[OF d \<open>s \<noteq> []\<close>]
        by (auto simp: int8in_def Number_def Let_def s_def[symmetric] split: if_splits)
    qed
  qed
qed

lemma strict_equal_int8in:
  "int8in p = Some a \<Longrightarrow> strict_equal (Number p) n \<longleftrightarrow> a = n"
  by (simp add: Number_int8in strict_equal_def)

lemma int8in_nonempty: "int8in p = Some a \<Longrightarrow> p \<noteq> []"
  by (auto simp: int8in_def trim_def)

section \<open>What each statement leaves alone\<close>

lemma users_set_active [simp]: "users (set_active st b v) = users st"
  by (simp add: set_active_def)

lemma referrals_increment_count [simp]: "referrals (increment_count st u) = referrals st"
  by (simp add: increment_count_def)

lemma referrals_decrement_count [simp]: "referrals (decrement_count st u) = referrals st"
  by (simp add: decrement_count_def)

lemma referrals_getOrCreateUser [simp]:
  "referrals (fst (getOrCreateUser st t un fn)) = referrals st"
  by (simp add: getOrCreateUser_def insert_user_def Let_def split: list.splits)

lemma users_getOrCreateUser:
  "users (fst (getOrCreateUser st t un fn)) =
     (if select_user st t = []
      then users st @ [\<lparr>telegram_id = t, username = un, first_name = fn, referral_count = 0\<rparr>]
      else users st)"
  by (simp add: getOrCreateUser_def insert_user_def Let_def split: list.splits)

lemma getOrCreateUser_present:
  "select_user st t \<noteq> [] \<Longrightarrow> fst (getOrCreateUser st t un fn) = st"
  by (simp add: getOrCreateUser_def split: list.splits)

lemma count_of_getOrCreateUser:
  "count_of (fst (getOrCreateUser st t un fn)) u =
     (if u = t \<and> count_of st t = None then Some 0 else count_of st u)"
  by (auto simp: count_of_def select_user_def users_getOrCreateUser split: list.splits)

lemma select_referral_getOrCreateUser [simp]:
  "select_referral (fst (getOrCreateUser st t un fn)) b = select_referral st b"
  by (simp add: select_referral_def)

section \<open>Counts and referral rows under the statements\<close>

lemma count_of_find:
  "count_of st u = map_option referral_count (find (\<lambda>x. telegram_id x = u) (users st))"
proof -
  have "(case filter P xs of [] \<Rightarrow> None | row # _ \<Rightarrow> Some (referral_count row))
          = map_option referral_count (find P xs)" for P and xs :: "user list"
    by (induction xs) auto
  then show ?thesis by (simp add: count_of_def select_user_def)
qed

lemma count_of_set_active [simp]: "count_of (set_active st b v) u = count_of st u"
  by (simp add: count_of_def select_user_def)

lemma count_of_update_count:
  "map_option referral_count
     (find (\<lambda>x. telegram_id x = u)
        (map (\<lambda>x. if telegram_id x = r then x\<lparr>referral_count := g (referral_count x)\<rparr> else x) xs))
   = (if u = r then map_option g (map_option referral_count (find (\<lambda>x. telegram_id x = u) xs))
      else map_option referral_count (find (\<lambda>x. telegram_id x = u) xs))"
  by (induction xs) auto

lemma count_of_increment_count:
  "count_of (increment_count st r) u =
     (if u = r then map_option (\<lambda>c. c + 1) (count_of st u) else count_of st u)"
  unfolding count_of_find increment_count_def
  using count_of_update_count[of u r "\<lambda>c. c + 1" "users st"] by simp

lemma count_of_decrement_count:
  "count_of (decrement_count st r) u =
     (if u = r then map_option (\<lambda>c. max 0 (c - 1)) (count_of st u) else count_of st u)"
  unfolding count_of_find decrement_count_def
  using count_of_update_count[of u r "\<lambda>c. max 0 (c - 1)" "users st"] by simp

lemma user_ids_increment_count [simp]: "user_ids (increment_count st r) = user_ids st"
  by (simp add: user_ids_def increment_count_def comp_def cong: map_cong)

lemma user_ids_decrement_count [simp]: "user_ids (decrement_count st r) = user_ids st"
  by (simp add: user_ids_def decrement_count_def comp_def cong: map_cong)

lemma user_ids_set_active [simp]: "user_ids (set_active st b v) = user_ids st"
  by (simp add: user_ids_def)

lemma count_of_None_iff: "count_of st u = None \<longleftrightarrow> u \<notin> set (user_ids st)"
  by (auto simp: count_of_find user_ids_def find_None_iff)

lemma increment_count_absent:
  "r \<notin> set (user_ids st) \<Longrightarrow> increment_count st r = st"
proof -
  assume "r \<notin> set (user_ids st)"
  then have "map (\<lambda>u. if telegram_id u = r then u\<lparr>referral_count := referral_count u + 1\<rparr> else u)
               (users st) = users st"
    by (intro map_idI) (auto simp: user_ids_def)
  then show ?thesis by (simp add: increment_count_def)
qed

subsection \<open>Referral rows\<close>

lemma select_referral_set_active:
  "select_referral (set_active st b v) b' =
     (if b' = b then map (\<lambda>x. x\<lparr>is_active := v\<rparr>) (select_referral st b)
      else select_referral st b')"
proof -
  have *: "filter (\<lambda>r. referred_id r = b')
          (map (\<lambda>x. if referred_id x = b then x\<lparr>is_active := v\<rparr> else x) xs)
        = (if b' = b then map (\<lambda>x. x\<lparr>is_active := v\<rparr>) (filter (\<lambda>r. referred_id r = b) xs)
           else filter (\<lambda>r. referred_id r = b') xs)" for xs
    by (induction xs) auto
  show ?thesis unfolding select_referral_def set_active_def by (simp add: *)
qed

lemma select_referral_increment_count [simp]:
  "select_referral (increment_count st r) b = select_referral st b"
  by (simp add: select_referral_def)

lemma select_referral_decrement_count [simp]:
  "select_referral (decrement_count st r) b = select_referral st b"
  by (simp add: select_referral_def)

lemma select_referrer_eq:
  "select_referrer st b v = map referrer_id (filter (\<lambda>r. is_active r = v) (select_referral st b))"
  by (simp add: select_referrer_def select_referral_def conj_commute)

subsection \<open>The handlers on a referred user\<close>

lemma on_start_creates:
  assumes "start_match msg = Some p" "int8in p = Some a" "a \<noteq> from_id msg"
    and "select_referral st (from_id msg) = []"
  shows "on_start st msg =
     ((fst (getOrCreateUser st (from_id msg) (from_username msg) (from_first_name msg)))
        \<lparr>referrals := referrals st @ [\<lparr>referrer_id = a, referred_id = from_id msg, is_active = False\<rparr>]\<rparr>,
      [(Chat (chat_id msg), Welcome_referred), (Chat (chat_id msg), Group_link),
       (Chat_text p, Referrer_notice)])"
  using assms int8in_nonempty[OF assms(2)]
  by (simp add: on_start_def on_start_in_def Let_def strict_equal_int8in referral_case_def insert_referral_def)

lemma on_start_reassigns:
  assumes "start_match msg = Some p" "int8in p = Some a" "a \<noteq> from_id msg"
    and "select_referral st (from_id msg) = r # rs" "\<not> is_active r"
  shows "on_start st msg =
     ((fst (getOrCreateUser st (from_id msg) (from_username msg) (from_first_name msg)))
        \<lparr>referrals := map (\<lambda>x. if referred_id x = from_id msg then x\<lparr>referrer_id := a\<rparr> else x)
                         (referrals st)\<rparr>,
      [(Chat (chat_id msg), Welcome_back_new_referrer), (Chat (chat_id msg), Group_link),
       (Chat_text p, Referrer_notice_returning)])"
  using assms int8in_nonempty[OF assms(2)]
  by (simp add: on_start_def on_start_in_def Let_def strict_equal_int8in referral_case_def update_referrer_def)

lemma on_start_active:
  assumes "start_match msg = Some p" "int8in p = Some a" "a \<noteq> from_id msg"
    and "select_referral st (from_id msg) = r # rs" "is_active r"
  shows "on_start st msg =
     (fst (getOrCreateUser st (from_id msg) (from_username msg) (from_first_name msg)),
      [(Chat (chat_id msg), Already_active_member)])"
  using assms int8in_nonempty[OF assms(2)]
  by (simp add: on_start_def on_start_in_def Let_def strict_equal_int8in referral_case_def)

lemma on_join_single:
  assumes "select_referral st (member_id m) = [r]" "\<not> is_active r"
  shows "on_new_chat_members st (m # ms) =
           (increment_count (set_active st (member_id m) True) (referrer_id r),
            [(Chat (referrer_id r), Join_success)])"
  using assms by (simp add: on_new_chat_members_def select_referrer_eq)

lemma on_left_single:
  assumes "select_referral st (member_id m) = [r]" "is_active r"
  shows "on_left_chat_member st m =
           (set_active (decrement_count st (referrer_id r)) (member_id m) False,
            [(Chat (referrer_id r), Left_notice)])"
  using assms by (simp add: on_left_chat_member_def select_referrer_eq)

lemma run_Nil [simp]: "run st [] = st"
  by (simp add: run_def)

lemma run_Cons [simp]: "run st (e # es) = run (handle st e) es"
  by (simp add: run_def)

lemma count_of_referrals_update [simp]: "count_of (st\<lparr>referrals := rs\<rparr>) u = count_of st u"
  by (simp add: count_of_def select_user_def)

lemma user_ids_referrals_update [simp]: "user_ids (st\<lparr>referrals := rs\<rparr>) = user_ids st"
  by (simp add: user_ids_def)

lemma user_ids_getOrCreateUser:
  "set (user_ids (fst (getOrCreateUser st t un fn))) = insert t (set (user_ids st))"
  by (auto simp: user_ids_def users_getOrCreateUser select_user_def filter_empty_conv)

lemma select_referral_append:
  "select_referral (st\<lparr>referrals := referrals st0 @ [r]\<rparr>) b =
     (if referred_id r = b then select_referral st0 b @ [r] else select_referral st0 b)"
  by (simp add: select_referral_def)

lemma select_referral_reassign:
  "select_referral
     (st\<lparr>referrals := map (\<lambda>x. if referred_id x = b then x\<lparr>referrer_id := a\<rparr> else x)
                          (referrals st0)\<rparr>) b' =
     (if b' = b then map (\<lambda>x. x\<lparr>referrer_id := a\<rparr>) (select_referral st0 b)
      else select_referral st0 b')"
proof -
  have *: "filter (\<lambda>r. referred_id r = b')
          (map (\<lambda>x. if referred_id x = b then x\<lparr>referrer_id := a\<rparr> else x) xs)
        = (if b' = b then map (\<lambda>x. x\<lparr>referrer_id := a\<rparr>) (filter (\<lambda>r. referred_id r = b) xs)
           else filter (\<lambda>r. referred_id r = b') xs)" for xs
    by (induction xs) auto
  show ?thesis unfolding select_referral_def by (simp add: *)
qed

subsection \<open>One step of a referred user's row\<close>

lemma start_create_step:
  assumes "from_id msg = B" "start_match msg = Some p" "int8in p = Some A" "A \<noteq> B"
    and "select_referral st B = []"
  shows "select_referral (handle st (Start msg)) B
           = [\<lparr>referrer_id = A, referred_id = B, is_active = False\<rparr>]"
    and "u \<noteq> B \<Longrightarrow> count_of (handle st (Start msg)) u = count_of st u"
  using assms by (simp_all add: on_start_creates select_referral_append count_of_getOrCreateUser)

lemma start_reassign_step:
  assumes "from_id msg = B" "start_match msg = Some p" "int8in p = Some A" "A \<noteq> B"
    and "select_referral st B = [r]" "\<not> is_active r"
  shows "select_referral (handle st (Start msg)) B = [r\<lparr>referrer_id := A\<rparr>]"
    and "u \<noteq> B \<Longrightarrow> count_of (handle st (Start msg)) u = count_of st u"
  using assms on_start_reassigns[of msg p A st r "[]"]
  by (simp_all add: select_referral_reassign count_of_getOrCreateUser)

lemma join_step:
  assumes "select_referral st B = [r]" "\<not> is_active r" "member_id m = B"
  shows "select_referral (handle st (Joined (m # ms))) B = [r\<lparr>is_active := True\<rparr>]"
    and "count_of (handle st (Joined (m # ms))) u =
           (if u = referrer_id r then map_option (\<lambda>c. c + 1) (count_of st u) else count_of st u)"
  using assms on_join_single[of st m r ms]
  by (simp_all add: select_referral_set_active count_of_increment_count)

lemma left_step:
  assumes "select_referral st B = [r]" "is_active r" "member_id m = B"
  shows "select_referral (handle st (Left_chat m)) B = [r\<lparr>is_active := False\<rparr>]"
    and "count_of (handle st (Left_chat m)) u =
           (if u = referrer_id r then map_option (\<lambda>c. max 0 (c - 1)) (count_of st u)
            else count_of st u)"
  using assms on_left_single[of st m r]
  by (simp_all add: select_referral_set_active count_of_decrement_count)

section \<open>Self-referral\<close>

text \<open>
  C4. A start event whose parameter denotes the sender's own identifier (to
  \<open>Number\<close>, or to the decimal reading \<open>int8in\<close>) takes the plain-welcome branch:
  the referrals table is unchanged, every count that was readable is the same, and
  when the sender already has a row the store as a whole is unchanged. The only write
  is the get-or-create of the sender's own row.
\<close>

theorem self_referral_is_noop:
  assumes "start_match msg = Some p"
    and "strict_equal (Number p) (from_id msg) \<or> int8in p = Some (from_id msg)"
  shows "referrals (fst (on_start st msg)) = referrals st
       \<and> (\<forall>u c. count_of st u = Some c \<longrightarrow> count_of (fst (on_start st msg)) u = Some c)
       \<and> (select_user st (from_id msg) \<noteq> [] \<longrightarrow> fst (on_start st msg) = st)
       \<and> snd (on_start st msg) = [(Chat (chat_id msg), Welcome_menu)]"
proof -
  from assms(2) have eq: "strict_equal (Number p) (from_id msg)"
    by (auto simp: strict_equal_int8in)
  have st': "on_start st msg =
      (fst (getOrCreateUser st (from_id msg) (from_username msg) (from_first_name msg)),
       [(Chat (chat_id msg), Welcome_menu)])"
    using assms(1) eq by (simp add: on_start_def on_start_in_def Let_def)
  show ?thesis
    by (auto simp: st' count_of_getOrCreateUser getOrCreateUser_present)
qed

theorem self_referral_is_noop_witness:
  "on_start \<lparr>users = [user_row 7 2], referrals = [referral_row 7 8 True]\<rparr>
       (start_from 7 (Some ''7''))
     = (\<lparr>users = [user_row 7 2], referrals = [referral_row 7 8 True]\<rparr>,
        [(Chat 7, Welcome_menu)])
   \<and> count_of (fst (on_start \<lparr>users = [user_row 7 2], referrals = [referral_row 7 8 True]\<rparr>
       (start_from 7 (Some ''7'')))) 7 = Some 2"
proof -
  let ?st = "\<lparr>users = [user_row 7 2], referrals = [referral_row 7 8 True]\<rparr>"
  let ?msg = "start_from 7 (Some ''7'')"
  have h1: "start_match ?msg = Some ''7''" by (simp add: start_from_def)
  have "int8in ''7'' = Some 7" by code_simp
  then have h2: "strict_equal (Number ''7'') (from_id ?msg) \<or> int8in ''7'' = Some (from_id ?msg)"
    by (simp add: start_from_def)
  have c: "count_of ?st 7 = Some 2" "select_user ?st (from_id ?msg) \<noteq> []"
    by (simp_all add: count_of_def select_user_def user_row_def start_from_def)
  from self_referral_is_noop[OF h1 h2, of ?st] c show ?thesis
    by (simp add: prod_eq_iff start_from_def)
qed

section \<open>Malformed start parameter\<close>

text \<open>
  The handler never inspects the parameter beyond the self-referral guard: it binds
  the text to \<open>referrer_id\<close> and leaves the judgement to the store. The result of a
  start event therefore depends on the store's reading only at the event's own
  parameter, and the results stated for \<open>on_start\<close> hold over every store that reads
  that parameter as \<open>int8in\<close> does.
\<close>

lemma Number_NaN_passes_guard:
  assumes "Number p = NaN"
  shows "p \<noteq> []" and "\<not> strict_equal (Number p) n"
  using assms by (auto simp: Number_def trim_def strict_equal_def)

lemma on_start_in_cong:
  assumes "\<And>p. start_match msg = Some p \<Longrightarrow> referrer_in p = referrer_in' p"
  shows "on_start_in referrer_in st msg = on_start_in referrer_in' st msg"
  using assms
  by (auto simp: on_start_in_def Let_def referral_case_def insert_referral_def update_referrer_def
      split: option.splits list.splits)

lemma on_start_in_int8in:
  assumes "start_match msg = Some p" "referrer_in p = int8in p"
  shows "on_start_in referrer_in st msg = on_start st msg"
  unfolding on_start_def using assms by (intro on_start_in_cong) simp

lemma users_on_start_in:
  "users (fst (on_start_in referrer_in st msg))
     = users (fst (getOrCreateUser st (from_id msg) (from_username msg) (from_first_name msg)))"
  by (auto simp: on_start_in_def Let_def referral_case_def insert_referral_def update_referrer_def
      split: option.splits list.splits)

lemma other_rows_on_start_in:
  assumes "b \<noteq> from_id msg"
  shows "select_referral (fst (on_start_in referrer_in st msg)) b = select_referral st b"
  using assms
  by (auto simp: on_start_in_def Let_def referral_case_def insert_referral_def update_referrer_def
      select_referral_append select_referral_reassign
      split: option.splits list.splits)

text \<open>
  C8, as stated, has no referral row created or updated for any malformed
  parameter. \<open>Number\<close> reads \<open>1_000\<close> as \<open>NaN\<close>, which differs from every user
  id, so the guard lets it through; over a store that reads that text as 1000 (stores
  that allow a separator between digits do) the row is inserted.
\<close>

theorem malformed_parameter_counterexample:
  "Number ''1_000'' = NaN
   \<and> on_start_in separator_reading
        \<lparr>users = [user_row 2 0], referrals = []\<rparr> (start_from 2 (Some ''1_000''))
     = (\<lparr>users = [user_row 2 0], referrals = [referral_row 1000 2 False]\<rparr>,
        [(Chat 2, Welcome_referred), (Chat 2, Group_link),
         (Chat_text ''1_000'', Referrer_notice)])"
  by code_simp

text \<open>
  C8, amended. For a parameter that \<open>Number\<close> reads as \<open>NaN\<close>, over any store: the
  users table is what the get-or-create of the sender leaves, and no referral row of
  another referred user changes. The handler does not check the text, so the sender's
  own rows follow the store's reading: when the store rejects the text, no referral
  row is created or updated; when the store accepts it, the sender's row is created
  inactive, or the referrer of the sender's rows is rewritten when the first of them is
  inactive, and nothing is written when it is active.
\<close>

theorem malformed_parameter_effect:
  assumes "start_match msg = Some p" and "Number p = NaN"
  shows "users (fst (on_start_in referrer_in st msg))
           = users (fst (getOrCreateUser st (from_id msg) (from_username msg) (from_first_name msg)))
       \<and> (\<forall>b. b \<noteq> from_id msg \<longrightarrow>
             select_referral (fst (on_start_in referrer_in st msg)) b = select_referral st b)
       \<and> (referrer_in p = None \<longrightarrow> referrals (fst (on_start_in referrer_in st msg)) = referrals st)
       \<and> (\<forall>a. referrer_in p = Some a \<longrightarrow>
             select_referral (fst (on_start_in referrer_in st msg)) (from_id msg)
               = (case select_referral st (from_id msg) of
                    [] \<Rightarrow> [\<lparr>referrer_id = a, referred_id = from_id msg, is_active = False\<rparr>]
                  | r # rs \<Rightarrow> if is_active r then r # rs
                             else map (\<lambda>x. x\<lparr>referrer_id := a\<rparr>) (r # rs)))"
proof (intro conjI allI impI)
  note g = Number_NaN_passes_guard[OF assms(2)]
  show "users (fst (on_start_in referrer_in st msg))
           = users (fst (getOrCreateUser st (from_id msg) (from_username msg) (from_first_name msg)))"
    by (rule users_on_start_in)
  show "select_referral (fst (on_start_in referrer_in st msg)) b = select_referral st b"
    if "b \<noteq> from_id msg" for b
    using that by (rule other_rows_on_start_in)
  show "referrals (fst (on_start_in referrer_in st msg)) = referrals st"
    if "referrer_in p = None"
    using that assms(1)
    by (simp add: on_start_in_def Let_def referral_case_def insert_referral_def
        update_referrer_def split: list.splits)
  show "select_referral (fst (on_start_in referrer_in st msg)) (from_id msg)
               = (case select_referral st (from_id msg) of
                    [] \<Rightarrow> [\<lparr>referrer_id = a, referred_id = from_id msg, is_active = False\<rparr>]
                  | r # rs \<Rightarrow> if is_active r then r # rs
                             else map (\<lambda>x. x\<lparr>referrer_id := a\<rparr>) (r # rs))"
    if "referrer_in p = Some a" for a
    using that assms(1) g
    by (auto simp: on_start_in_def Let_def referral_case_def insert_referral_def
        update_referrer_def select_referral_append select_referral_reassign
        split: list.splits)
qed

theorem malformed_parameter_effect_witness:
  "users (fst (on_start_in int8in \<lparr>users = [user_row 7 0], referrals = [referral_row 7 8 False]\<rparr>
                 (start_from 8 (Some ''abc''))))
     = [user_row 7 0, user_row 8 0]
   \<and> referrals (fst (on_start_in int8in
                 \<lparr>users = [user_row 7 0], referrals = [referral_row 7 8 False]\<rparr>
                 (start_from 8 (Some ''abc''))))
     = [referral_row 7 8 False]
   \<and> select_referral
       (fst (on_start_in separator_reading
               \<lparr>users = [user_row 7 0], referrals = [referral_row 7 8 False]\<rparr>
               (start_from 8 (Some ''1_000'')))) 8
     = [referral_row 1000 8 False]
   \<and> select_referral
       (fst (on_start_in separator_reading
               \<lparr>users = [user_row 7 0], referrals = [referral_row 7 8 False]\<rparr>
               (start_from 8 (Some ''1_000'')))) 9
     = []"
proof -
  let ?st = "\<lparr>users = [user_row 7 0], referrals = [referral_row 7 8 False]\<rparr>"
  let ?in = "separator_reading"
  have m1: "start_match (start_from 8 (Some ''abc'')) = Some ''abc''"
    and m2: "start_match (start_from 8 (Some ''1_000'')) = Some ''1_000''"
    by (simp_all add: start_from_def)
  have n1: "Number ''abc'' = NaN" and n2: "Number ''1_000'' = NaN" by code_simp+
  have r1: "int8in ''abc'' = None" by code_simp
  have r2: "?in ''1_000'' = Some 1000" by (simp add: separator_reading_def)
  have g: "users (fst (getOrCreateUser ?st (from_id (start_from 8 (Some ''abc'')))
                    (from_username (start_from 8 (Some ''abc'')))
                    (from_first_name (start_from 8 (Some ''abc'')))))
             = [user_row 7 0, user_row 8 0]"
    by (simp add: getOrCreateUser_def select_user_def insert_user_def user_row_def
        start_from_def Let_def)
  have s: "select_referral ?st 8 = [referral_row 7 8 False]" "select_referral ?st 9 = []"
    by (simp_all add: select_referral_def referral_row_def)
  from malformed_parameter_effect[OF m1 n1, of int8in ?st] r1 g
  have a: "users (fst (on_start_in int8in ?st (start_from 8 (Some ''abc''))))
             = [user_row 7 0, user_row 8 0]"
    "referrals (fst (on_start_in int8in ?st (start_from 8 (Some ''abc''))))
             = [referral_row 7 8 False]"
    by simp_all
  from malformed_parameter_effect[OF m2 n2, of ?in ?st] r2 s
  have b: "select_referral (fst (on_start_in ?in ?st (start_from 8 (Some ''1_000'')))) 8
             = [referral_row 1000 8 False]"
    "select_referral (fst (on_start_in ?in ?st (start_from 8 (Some ''1_000'')))) 9 = []"
    by (simp_all add: start_from_def referral_row_def)
  from a b show ?thesis by simp
qed

section \<open>Registering the same referral twice\<close>

text \<open>
  C5. A referred user \<open>B\<close> without a referral row sends two start events whose
  parameters denote the same referrer \<open>A \<noteq> B\<close>, with nothing in between. Afterwards
  \<open>B\<close> has exactly one referral row, attributed to \<open>A\<close> and inactive, and the second
  event answered from the branch for an existing inactive referral (the
  returning-user texts), not from the create branch.
\<close>

theorem register_twice_one_row:
  assumes "from_id m1 = B" "start_match m1 = Some p1" "int8in p1 = Some A"
    and "from_id m2 = B" "start_match m2 = Some p2" "int8in p2 = Some A"
    and "A \<noteq> B" "select_referral st B = []"
  shows "select_referral (run st [Start m1, Start m2]) B
           = [\<lparr>referrer_id = A, referred_id = B, is_active = False\<rparr>]
       \<and> snd (on_start (run st [Start m1]) m2)
           = [(Chat (chat_id m2), Welcome_back_new_referrer), (Chat (chat_id m2), Group_link),
              (Chat_text p2, Referrer_notice_returning)]"
proof -
  let ?row = "\<lparr>referrer_id = A, referred_id = B, is_active = False\<rparr>"
  have s1: "select_referral (run st [Start m1]) B = [?row]"
    using assms by (simp add: on_start_creates select_referral_append)
  have "on_start (run st [Start m1]) m2 =
     ((fst (getOrCreateUser (run st [Start m1]) B (from_username m2) (from_first_name m2)))
        \<lparr>referrals := map (\<lambda>x. if referred_id x = B then x\<lparr>referrer_id := A\<rparr> else x)
                         (referrals (run st [Start m1]))\<rparr>,
      [(Chat (chat_id m2), Welcome_back_new_referrer), (Chat (chat_id m2), Group_link),
       (Chat_text p2, Referrer_notice_returning)])"
    using on_start_reassigns[of m2 p2 A "run st [Start m1]" ?row "[]"] assms s1 by simp
  then show ?thesis using s1
    by (simp add: select_referral_reassign)
qed

theorem register_twice_one_row_witness:
  "select_referral
     (run \<lparr>users = [user_row 1 0], referrals = []\<rparr>
        [Start (start_from 2 (Some ''1'')), Start (start_from 2 (Some ''1''))]) 2
     = [referral_row 1 2 False]
   \<and> snd (on_start
            (run \<lparr>users = [user_row 1 0], referrals = []\<rparr> [Start (start_from 2 (Some ''1''))])
            (start_from 2 (Some ''1'')))
     = [(Chat 2, Welcome_back_new_referrer), (Chat 2, Group_link),
        (Chat_text ''1'', Referrer_notice_returning)]"
proof -
  let ?st = "\<lparr>users = [user_row 1 0], referrals = []\<rparr>"
  let ?m = "start_from 2 (Some ''1'')"
  have m: "from_id ?m = 2" "start_match ?m = Some ''1''" "chat_id ?m = 2"
    by (simp_all add: start_from_def)
  have p: "int8in ''1'' = Some 1" by code_simp
  have d: "(1::int) \<noteq> 2" by simp
  have e: "select_referral ?st 2 = []" by (simp add: select_referral_def)
  from register_twice_one_row[OF m(1,2) p m(1,2) p d e] show ?thesis
    by (simp add: m referral_row_def)
qed

section \<open>A referrer without a user row\<close>

text \<open>
  C10. The start handler creates the sender's row only. When the parameter denotes
  a referrer \<open>A\<close> that has no row in \<open>users\<close>, the referral row is created all the
  same; the next join of the referred user marks it active, and the increment,
  addressed to \<open>A\<close>, finds no row: the users table after the join is the users table
  before it, and \<open>A\<close> still has no count.
\<close>

theorem unknown_referrer_never_counted:
  assumes "from_id msg = B" "start_match msg = Some p" "int8in p = Some A" "A \<noteq> B"
    and "A \<notin> set (user_ids st)" "select_referral st B = []" "member_id m = B"
  shows "select_referral (run st [Start msg]) B
           = [\<lparr>referrer_id = A, referred_id = B, is_active = False\<rparr>]
       \<and> select_referral (run st [Start msg, Joined (m # ms)]) B
           = [\<lparr>referrer_id = A, referred_id = B, is_active = True\<rparr>]
       \<and> users (run st [Start msg, Joined (m # ms)]) = users (run st [Start msg])
       \<and> count_of (run st [Start msg, Joined (m # ms)]) A = None"
proof -
  let ?row = "\<lparr>referrer_id = A, referred_id = B, is_active = False\<rparr>"
  let ?st1 = "run st [Start msg]"
  have s1: "select_referral ?st1 B = [?row]"
    using assms by (simp add: on_start_creates select_referral_append)
  have u1: "A \<notin> set (user_ids ?st1)"
    using assms by (simp add: on_start_creates user_ids_getOrCreateUser)
  have j: "on_new_chat_members ?st1 (m # ms) =
             (increment_count (set_active ?st1 B True) A, [(Chat A, Join_success)])"
    using on_join_single[of ?st1 m ?row ms] s1 assms(7) by simp
  have "increment_count (set_active ?st1 B True) A = set_active ?st1 B True"
    using u1 by (simp add: increment_count_absent)
  with j have st2: "run st [Start msg, Joined (m # ms)] = set_active ?st1 B True"
    by simp
  show ?thesis
    using s1 u1 by (simp only: st2) (simp add: select_referral_set_active count_of_None_iff)
qed

theorem unknown_referrer_never_counted_witness:
  "select_referral (run empty_store [Start (start_from 2 (Some ''1''))]) 2
     = [referral_row 1 2 False]
   \<and> select_referral
       (run empty_store [Start (start_from 2 (Some ''1'')), Joined [member_of 2]]) 2
     = [referral_row 1 2 True]
   \<and> users (run empty_store [Start (start_from 2 (Some ''1'')), Joined [member_of 2]])
     = [user_row 2 0]
   \<and> count_of (run empty_store [Start (start_from 2 (Some ''1'')), Joined [member_of 2]]) 1
     = None"
proof -
  let ?m = "start_from 2 (Some ''1'')"
  have m: "from_id ?m = 2" "start_match ?m = Some ''1''"
    by (simp_all add: start_from_def)
  have p: "int8in ''1'' = Some 1" by code_simp
  have d: "(1::int) \<noteq> 2" by simp
  have a: "1 \<notin> set (user_ids empty_store)" by (simp add: user_ids_def empty_store_def)
  have e: "select_referral empty_store 2 = []" by (simp add: select_referral_def empty_store_def)
  have b: "member_id (member_of 2) = 2" by (simp add: member_of_def)
  have u: "users (run empty_store [Start ?m]) = [user_row 2 0]"
    by code_simp
  from unknown_referrer_never_counted[OF m p d a e b, of "[]"] u show ?thesis
    by (simp add: referral_row_def)
qed

section \<open>Join, leave, join again\<close>

text \<open>
  C2, as stated, fixes the counts at 1, 0, 1 for any referrer present in the users
  table. The handlers add to and subtract from the count the referrer already has:
  a referrer who enters the sequence with one active referral of another user reads
  2 after the join.
\<close>

theorem join_leave_rejoin_counterexample:
  "select_referral
      \<lparr>users = [user_row 1 1, user_row 2 0, user_row 3 0], referrals = [referral_row 1 3 True]\<rparr> 2
     = []
   \<and> count_of
       (run \<lparr>users = [user_row 1 1, user_row 2 0, user_row 3 0],
             referrals = [referral_row 1 3 True]\<rparr>
          [Start (start_from 2 (Some ''1'')), Joined [member_of 2]]) 1
     = Some 2
   \<and> count_of
       (run \<lparr>users = [user_row 1 1, user_row 2 0, user_row 3 0],
             referrals = [referral_row 1 3 True]\<rparr>
          [Start (start_from 2 (Some ''1'')), Joined [member_of 2]]) 1
     \<noteq> Some 1"
  by code_simp

text \<open>
  C2, amended. \<open>A\<close> has a row with count \<open>c \<ge> 0\<close>, \<open>B \<noteq> A\<close> has no referral row, and
  \<open>B\<close> sends a start event whose parameter denotes \<open>A\<close>. Then \<open>A\<close>'s count is \<open>c + 1\<close>
  after \<open>B\<close> joins, \<open>c\<close> after \<open>B\<close> leaves, and \<open>c + 1\<close> after \<open>B\<close> joins again; with
  \<open>c = 0\<close> these are 1, 0 and 1.
\<close>

theorem join_leave_rejoin_counts:
  assumes "from_id msg = B" "start_match msg = Some p" "int8in p = Some A" "A \<noteq> B"
    and "count_of st A = Some c" "0 \<le> c" "select_referral st B = []" "member_id m = B"
  shows "count_of (run st [Start msg, Joined (m # ms)]) A = Some (c + 1)
       \<and> count_of (run st [Start msg, Joined (m # ms), Left_chat m]) A = Some c
       \<and> count_of (run st [Start msg, Joined (m # ms), Left_chat m, Joined (m # ms)]) A = Some (c + 1)"
proof -
  let ?row = "\<lambda>v. \<lparr>referrer_id = A, referred_id = B, is_active = v\<rparr>"
  define st1 where "st1 = handle st (Start msg)"
  define st2 where "st2 = handle st1 (Joined (m # ms))"
  define st3 where "st3 = handle st2 (Left_chat m)"
  define st4 where "st4 = handle st3 (Joined (m # ms))"
  have r1: "select_referral st1 B = [?row False]" and c1: "count_of st1 A = Some c"
    unfolding st1_def
    using start_create_step[OF assms(1-4) assms(7)] assms(4,5) by simp_all
  have r2: "select_referral st2 B = [?row True]" and c2: "count_of st2 A = Some (c + 1)"
    unfolding st2_def using join_step[OF r1 _ assms(8), of ms] c1 by simp_all
  have r3: "select_referral st3 B = [?row False]" and c3: "count_of st3 A = Some c"
    unfolding st3_def using left_step[OF r2 _ assms(8)] c2 assms(6) by simp_all
  have c4: "count_of st4 A = Some (c + 1)"
    unfolding st4_def using join_step[OF r3 _ assms(8), of ms] c3 by simp
  show ?thesis
    using c2 c3 c4 by (simp add: st1_def st2_def st3_def st4_def)
qed

theorem join_leave_rejoin_counts_witness:
  "count_of
     (run \<lparr>users = [user_row 1 0, user_row 2 0], referrals = []\<rparr>
        [Start (start_from 2 (Some ''1'')), Joined [member_of 2]]) 1 = Some 1
   \<and> count_of
     (run \<lparr>users = [user_row 1 0, user_row 2 0], referrals = []\<rparr>
        [Start (start_from 2 (Some ''1'')), Joined [member_of 2], Left_chat (member_of 2)]) 1
     = Some 0
   \<and> count_of
     (run \<lparr>users = [user_row 1 0, user_row 2 0], referrals = []\<rparr>
        [Start (start_from 2 (Some ''1'')), Joined [member_of 2], Left_chat (member_of 2),
         Joined [member_of 2]]) 1
     = Some 1"
proof -
  let ?st = "\<lparr>users = [user_row 1 0, user_row 2 0], referrals = []\<rparr>"
  let ?m = "start_from 2 (Some ''1'')"
  have m: "from_id ?m = 2" "start_match ?m = Some ''1''"
    by (simp_all add: start_from_def)
  have p: "int8in ''1'' = Some 1" by code_simp
  have d: "(1::int) \<noteq> 2" by simp
  have c: "count_of ?st 1 = Some 0" by (simp add: count_of_def select_user_def user_row_def)
  have z: "(0::int) \<le> 0" by simp
  have e: "select_referral ?st 2 = []" by (simp add: select_referral_def)
  have b: "member_id (member_of 2) = 2" by (simp add: member_of_def)
  from join_leave_rejoin_counts[OF m p d c z e b, of "[]"] show ?thesis by simp
qed

section \<open>Reassignment while inactive\<close>

subsection \<open>The five events on the rows of the referred user\<close>

lemma rows_referred: "r \<in> set (select_referral st b) \<Longrightarrow> referred_id r = b"
  by (simp add: select_referral_def)

lemma map_to_replicate:
  assumes "\<And>r. r \<in> set rs \<Longrightarrow> f r = y"
  shows "map f rs = replicate (length rs) y"
  using assms by (induction rs) auto

lemma start_reassign_rows:
  assumes "from_id msg = B" "start_match msg = Some p" "int8in p = Some A" "A \<noteq> B"
    and "select_referral st B = r # rs" "\<not> is_active r"
  shows "select_referral (handle st (Start msg)) B = map (\<lambda>x. x\<lparr>referrer_id := A\<rparr>) (r # rs)"
    and "u \<noteq> B \<Longrightarrow> count_of (handle st (Start msg)) u = count_of st u"
  using assms on_start_reassigns[of msg p A st r rs]
  by (simp_all add: select_referral_reassign count_of_getOrCreateUser)

lemma start_active_rows:
  assumes "from_id msg = B" "start_match msg = Some p" "int8in p = Some A" "A \<noteq> B"
    and "select_referral st B = r # rs" "is_active r"
  shows "select_referral (handle st (Start msg)) B = r # rs"
    and "u \<noteq> B \<Longrightarrow> count_of (handle st (Start msg)) u = count_of st u"
  using assms on_start_active[of msg p A st r rs]
  by (simp_all add: count_of_getOrCreateUser)

lemma join_rows:
  assumes "select_referrer st B False = X # xs" "member_id m = B"
  shows "select_referral (handle st (Joined (m # ms))) B
           = map (\<lambda>x. x\<lparr>is_active := True\<rparr>) (select_referral st B)"
    and "count_of (handle st (Joined (m # ms))) u =
           (if u = X then map_option (\<lambda>c. c + 1) (count_of st u) else count_of st u)"
  using assms
  by (simp_all add: on_new_chat_members_def select_referral_set_active count_of_increment_count)

lemma join_nothing:
  assumes "select_referrer st B False = []" "member_id m = B"
  shows "handle st (Joined (m # ms)) = st"
  using assms by (simp add: on_new_chat_members_def)

lemma left_rows:
  assumes "select_referrer st B True = X # xs" "member_id m = B"
  shows "select_referral (handle st (Left_chat m)) B
           = map (\<lambda>x. x\<lparr>is_active := False\<rparr>) (select_referral st B)"
    and "count_of (handle st (Left_chat m)) u =
           (if u = X then map_option (\<lambda>c. max 0 (c - 1)) (count_of st u) else count_of st u)"
  using assms
  by (simp_all add: on_left_chat_member_def select_referral_set_active count_of_decrement_count)

lemma select_referrer_replicate:
  assumes "select_referral st B = replicate (Suc k) \<lparr>referrer_id = X, referred_id = B, is_active = v\<rparr>"
  shows "select_referrer st B v = X # replicate k X"
  using assms by (simp add: select_referrer_eq)

lemma reassign_tail:
  assumes mC: "from_id mC = B" "start_match mC = Some pC" "int8in pC = Some C" "C \<noteq> B"
    and rows: "select_referral s B = r # rs" "\<forall>x \<in> set (r # rs). \<not> is_active x"
    and cnt: "count_of s A = Some a" "count_of s C = Some c" "A \<noteq> B" "A \<noteq> C"
    and m: "member_id m = B"
  shows "select_referral (handle s (Start mC)) B
           = replicate (Suc (length rs)) \<lparr>referrer_id = C, referred_id = B, is_active = False\<rparr>"
    and "select_referral (handle (handle s (Start mC)) (Joined (m # ms))) B
           = replicate (Suc (length rs)) \<lparr>referrer_id = C, referred_id = B, is_active = True\<rparr>"
    and "count_of (handle (handle s (Start mC)) (Joined (m # ms))) C = Some (c + 1)"
    and "count_of (handle (handle s (Start mC)) (Joined (m # ms))) A = Some a"
proof -
  let ?s4 = "handle s (Start mC)"
  have ref: "\<And>x. x \<in> set (r # rs) \<Longrightarrow> referred_id x = B"
    using rows(1) rows_referred[of _ s B] by simp
  from rows(2) have nr: "\<not> is_active r" by simp
  have "select_referral ?s4 B = map (\<lambda>x. x\<lparr>referrer_id := C\<rparr>) (r # rs)"
    by (rule start_reassign_rows(1)[OF mC rows(1) nr])
  also have "\<dots> = replicate (length (r # rs)) \<lparr>referrer_id = C, referred_id = B, is_active = False\<rparr>"
    using ref rows(2) by (intro map_to_replicate) auto
  finally show r4: "select_referral ?s4 B
           = replicate (Suc (length rs)) \<lparr>referrer_id = C, referred_id = B, is_active = False\<rparr>"
    by simp
  have c4: "count_of ?s4 A = Some a" "count_of ?s4 C = Some c"
    using start_reassign_rows(2)[OF mC rows(1) nr] cnt mC(4) by simp_all
  have sel: "select_referrer ?s4 B False = C # replicate (length rs) C"
    by (rule select_referrer_replicate[OF r4])
  show "select_referral (handle ?s4 (Joined (m # ms))) B
           = replicate (Suc (length rs)) \<lparr>referrer_id = C, referred_id = B, is_active = True\<rparr>"
    using join_rows(1)[OF sel m, of ms] r4 by simp
  show "count_of (handle ?s4 (Joined (m # ms))) C = Some (c + 1)"
    using join_rows(2)[OF sel m, of ms C] c4 by simp
  show "count_of (handle ?s4 (Joined (m # ms))) A = Some a"
    using join_rows(2)[OF sel m, of ms A] c4 cnt(4) by simp
qed

lemma register_join_leave:
  assumes mA: "from_id mA = B" "start_match mA = Some pA" "int8in pA = Some A" "A \<noteq> B"
    and rows: "select_referral st B = [] \<or> \<not> is_active (hd (select_referral st B))"
    and cnt: "count_of st A = Some a" "0 \<le> a" "count_of st C = Some c" "C \<noteq> B" "A \<noteq> C"
    and m: "member_id m = B"
  shows "select_referral (handle (handle (handle st (Start mA)) (Joined (m # ms))) (Left_chat m)) B
           = replicate (max 1 (length (select_referral st B)))
               \<lparr>referrer_id = A, referred_id = B, is_active = False\<rparr>"
    and "count_of (handle (handle (handle st (Start mA)) (Joined (m # ms))) (Left_chat m)) A = Some a"
    and "count_of (handle (handle (handle st (Start mA)) (Joined (m # ms))) (Left_chat m)) C = Some c"
proof -
  let ?R = "select_referral st B"
  define k where "k = max 1 (length ?R) - 1"
  let ?s1 = "handle st (Start mA)"
  let ?s2 = "handle ?s1 (Joined (m # ms))"
  let ?s3 = "handle ?s2 (Left_chat m)"
  have k: "max 1 (length ?R) = Suc k" by (simp add: k_def)
  have cu: "count_of ?s1 u = count_of st u" if "u \<noteq> B" for u
  proof (cases ?R)
    case Nil
    from start_create_step(2)[OF mA Nil that] show ?thesis .
  next
    case (Cons r rs)
    with rows have nr: "\<not> is_active r" by simp
    from start_reassign_rows(2)[OF mA Cons nr that] show ?thesis .
  qed
  have c1: "count_of ?s1 A = Some a" "count_of ?s1 C = Some c"
    using cu[of A] cu[of C] cnt mA(4) by simp_all
  have r1: "\<exists>vs. select_referral ?s1 B
                 = \<lparr>referrer_id = A, referred_id = B, is_active = False\<rparr> # vs
               \<and> length vs = k
               \<and> (\<forall>x \<in> set vs. referrer_id x = A \<and> referred_id x = B)"
  proof (cases ?R)
    case Nil
    with start_create_step(1)[OF mA Nil] show ?thesis by (simp add: k_def)
  next
    case (Cons r rs)
    with rows have nr: "\<not> is_active r" by simp
    have ref: "\<And>x. x \<in> set (r # rs) \<Longrightarrow> referred_id x = B"
      using Cons rows_referred[of _ st B] by simp
    have "select_referral ?s1 B = map (\<lambda>x. x\<lparr>referrer_id := A\<rparr>) (r # rs)"
      by (rule start_reassign_rows(1)[OF mA Cons nr])
    moreover have "r\<lparr>referrer_id := A\<rparr> = \<lparr>referrer_id = A, referred_id = B, is_active = False\<rparr>"
      using nr ref[of r] by simp
    ultimately show ?thesis using Cons ref
      by (intro exI[of _ "map (\<lambda>x. x\<lparr>referrer_id := A\<rparr>) rs"]) (auto simp: k_def)
  qed
  from r1 obtain vs where r1': "select_referral ?s1 B
                 = \<lparr>referrer_id = A, referred_id = B, is_active = False\<rparr> # vs"
    and lv: "length vs = k" and av: "\<forall>x \<in> set vs. referrer_id x = A \<and> referred_id x = B"
    by blast
  have sel1: "select_referrer ?s1 B False
                = A # map referrer_id (filter (\<lambda>r. is_active r = False) vs)"
    unfolding select_referrer_eq r1' by simp
  have "select_referral ?s2 B = map (\<lambda>x. x\<lparr>is_active := True\<rparr>) (select_referral ?s1 B)"
    by (rule join_rows(1)[OF sel1 m])
  also have "\<dots> = replicate (length (select_referral ?s1 B))
                      \<lparr>referrer_id = A, referred_id = B, is_active = True\<rparr>"
    unfolding r1' using av by (intro map_to_replicate) auto
  finally have r2: "select_referral ?s2 B
                = replicate (Suc k) \<lparr>referrer_id = A, referred_id = B, is_active = True\<rparr>"
    unfolding r1' using lv by simp
  have c2: "count_of ?s2 A = Some (a + 1)" "count_of ?s2 C = Some c"
    using join_rows(2)[OF sel1 m, of ms] c1 cnt(5) by simp_all
  have sel2: "select_referrer ?s2 B True = A # replicate k A"
    by (rule select_referrer_replicate[OF r2])
  have "select_referral ?s3 B = map (\<lambda>x. x\<lparr>is_active := False\<rparr>) (select_referral ?s2 B)"
    by (rule left_rows(1)[OF sel2 m])
  then show "select_referral ?s3 B
           = replicate (max 1 (length ?R)) \<lparr>referrer_id = A, referred_id = B, is_active = False\<rparr>"
    by (simp only: r2 k) simp
  show "count_of ?s3 A = Some a"
    using left_rows(2)[OF sel2 m, of A] c2 cnt(2) by simp
  show "count_of ?s3 C = Some c"
    using left_rows(2)[OF sel2 m, of C] c2 cnt(5) by simp
qed

lemma leave_active_elsewhere:
  assumes mA: "from_id mA = B" "start_match mA = Some pA" "int8in pA = Some A" "A \<noteq> B"
    and rows: "select_referral st B = r # rs" "\<forall>x \<in> set (r # rs). is_active x"
      "referrer_id r \<noteq> A" "referrer_id r \<noteq> C"
    and cnt: "count_of st A = Some a" "count_of st C = Some c" "C \<noteq> B"
    and m: "member_id m = B"
  shows "select_referral (handle (handle (handle st (Start mA)) (Joined (m # ms))) (Left_chat m)) B
           = map (\<lambda>x. x\<lparr>is_active := False\<rparr>) (r # rs)"
    and "count_of (handle (handle (handle st (Start mA)) (Joined (m # ms))) (Left_chat m)) A = Some a"
    and "count_of (handle (handle (handle st (Start mA)) (Joined (m # ms))) (Left_chat m)) C = Some c"
proof -
  let ?s1 = "handle st (Start mA)"
  let ?s2 = "handle ?s1 (Joined (m # ms))"
  let ?s3 = "handle ?s2 (Left_chat m)"
  from rows(2) have ar: "is_active r" by simp
  have r1: "select_referral ?s1 B = r # rs"
    by (rule start_active_rows(1)[OF mA rows(1) ar])
  have c1: "count_of ?s1 A = Some a" "count_of ?s1 C = Some c"
    using start_active_rows(2)[OF mA rows(1) ar] cnt mA(4) by simp_all
  have "filter (\<lambda>x. is_active x = False) (r # rs) = []"
    using rows(2) by (simp add: filter_empty_conv)
  then have "select_referrer ?s1 B False = []"
    unfolding select_referrer_eq r1 by simp
  then have s2: "?s2 = ?s1" using m by (rule join_nothing)
  have "filter (\<lambda>x. is_active x = True) (r # rs) = r # rs"
    using rows(2) by (simp add: filter_id_conv)
  then have sel: "select_referrer ?s1 B True = referrer_id r # map referrer_id rs"
    unfolding select_referrer_eq r1 by simp
  show "select_referral ?s3 B = map (\<lambda>x. x\<lparr>is_active := False\<rparr>) (r # rs)"
    unfolding s2 using left_rows(1)[OF sel m] unfolding r1 .
  show "count_of ?s3 A = Some a"
    unfolding s2 using left_rows(2)[OF sel m, of A] c1 rows(3) by simp
  show "count_of ?s3 C = Some c"
    unfolding s2 using left_rows(2)[OF sel m, of C] c1 rows(4) by simp
qed

text \<open>
  C3, as stated, fixes the final counts at 1 for \<open>C\<close> and 0 for \<open>A\<close> for any three
  users present in the table. A first referrer who enters the sequence with one
  active referral of another user still reads 1 at the end.
\<close>

theorem reassignment_counterexample:
  "select_referral
      \<lparr>users = [user_row 1 1, user_row 2 0, user_row 3 0, user_row 4 0],
       referrals = [referral_row 1 4 True]\<rparr> 2
     = []
   \<and> count_of
       (run \<lparr>users = [user_row 1 1, user_row 2 0, user_row 3 0, user_row 4 0],
             referrals = [referral_row 1 4 True]\<rparr>
          [Start (start_from 2 (Some ''1'')), Joined [member_of 2], Left_chat (member_of 2),
           Start (start_from 2 (Some ''3'')), Joined [member_of 2]]) 1
     = Some 1
   \<and> count_of
       (run \<lparr>users = [user_row 1 1, user_row 2 0, user_row 3 0, user_row 4 0],
             referrals = [referral_row 1 4 True]\<rparr>
          [Start (start_from 2 (Some ''1'')), Joined [member_of 2], Left_chat (member_of 2),
           Start (start_from 2 (Some ''3'')), Joined [member_of 2]]) 1
     \<noteq> Some 0"
  by code_simp

text \<open>
  C3, amended. \<open>A\<close>, \<open>B\<close>, \<open>C\<close> are distinct, \<open>A\<close> has a row with count \<open>a \<ge> 0\<close>, \<open>C\<close>
  a row with count \<open>c\<close>, and \<open>B\<close> does not enter as an active referral of \<open>A\<close> or of
  \<open>C\<close>: \<open>B\<close> has no referral row, or the first of \<open>B\<close>'s rows is inactive, or all of
  them are active and the first names neither \<open>A\<close> nor \<open>C\<close>. After \<open>B\<close> registers under
  \<open>A\<close>, joins and leaves, a start event of \<open>B\<close> naming \<open>C\<close> rewrites \<open>B\<close>'s rows, all
  inactive, to referrer \<open>C\<close>; after the next join they are active, \<open>C\<close>'s count is
  \<open>c + 1\<close> and \<open>A\<close>'s count is \<open>a\<close> again: 1 and 0 when both start at 0. \<open>B\<close> has
  exactly one row throughout when it entered with at most one.
\<close>

theorem reassignment_counts:
  assumes "from_id mA = B" "start_match mA = Some pA" "int8in pA = Some A" "A \<noteq> B"
    and "from_id mC = B" "start_match mC = Some pC" "int8in pC = Some C" "C \<noteq> B"
    and "A \<noteq> C" "count_of st A = Some a" "0 \<le> a" "count_of st C = Some c"
    and "select_referral st B = []
         \<or> \<not> is_active (hd (select_referral st B))
         \<or> ((\<forall>r \<in> set (select_referral st B). is_active r)
            \<and> referrer_id (hd (select_referral st B)) \<noteq> A
            \<and> referrer_id (hd (select_referral st B)) \<noteq> C)"
    and "member_id m = B"
  shows "select_referral (run st [Start mA, Joined (m # ms), Left_chat m, Start mC]) B
           = replicate (max 1 (length (select_referral st B)))
               \<lparr>referrer_id = C, referred_id = B, is_active = False\<rparr>
       \<and> select_referral (run st [Start mA, Joined (m # ms), Left_chat m, Start mC, Joined (m # ms)]) B
           = replicate (max 1 (length (select_referral st B)))
               \<lparr>referrer_id = C, referred_id = B, is_active = True\<rparr>
       \<and> count_of (run st [Start mA, Joined (m # ms), Left_chat m, Start mC, Joined (m # ms)]) C
           = Some (c + 1)
       \<and> count_of (run st [Start mA, Joined (m # ms), Left_chat m, Start mC, Joined (m # ms)]) A
           = Some a"
proof -
  let ?R = "select_referral st B"
  define s3 where "s3 = handle (handle (handle st (Start mA)) (Joined (m # ms))) (Left_chat m)"
  have s3: "\<exists>r rs. select_referral s3 B = r # rs \<and> Suc (length rs) = max 1 (length ?R)
              \<and> (\<forall>x \<in> set (r # rs). \<not> is_active x)"
    and c3: "count_of s3 A = Some a" "count_of s3 C = Some c"
  proof -
    have "(\<exists>r rs. select_referral s3 B = r # rs \<and> Suc (length rs) = max 1 (length ?R)
              \<and> (\<forall>x \<in> set (r # rs). \<not> is_active x))
          \<and> count_of s3 A = Some a \<and> count_of s3 C = Some c"
    proof (cases "?R = [] \<or> \<not> is_active (hd ?R)")
      case True
      note h = register_join_leave[OF assms(1-4) True assms(10,11,12,8,9,14), where ms = ms,
          folded s3_def]
      obtain k where k: "max 1 (length ?R) = Suc k" by (cases "max 1 (length ?R)") auto
      from h(1) k have "select_referral s3 B
          = \<lparr>referrer_id = A, referred_id = B, is_active = False\<rparr>
            # replicate k \<lparr>referrer_id = A, referred_id = B, is_active = False\<rparr>"
        by simp
      then have "\<exists>r rs. select_referral s3 B = r # rs \<and> Suc (length rs) = max 1 (length ?R)
              \<and> (\<forall>x \<in> set (r # rs). \<not> is_active x)"
        using k by auto
      with h(2,3) show ?thesis by simp
    next
      case False
      with assms(13) obtain r rs where R: "?R = r # rs"
        and act: "\<forall>x \<in> set (r # rs). is_active x"
        and fr: "referrer_id r \<noteq> A" "referrer_id r \<noteq> C"
        by (cases ?R) auto
      note h = leave_active_elsewhere[OF assms(1-4) R act fr assms(10,12,8,14), where ms = ms,
          folded s3_def]
      from h(1) R have "\<exists>r' rs'. select_referral s3 B = r' # rs'
              \<and> Suc (length rs') = max 1 (length ?R)
              \<and> (\<forall>x \<in> set (r' # rs'). \<not> is_active x)"
        by auto
      with h(2,3) show ?thesis by simp
    qed
    then show "\<exists>r rs. select_referral s3 B = r # rs \<and> Suc (length rs) = max 1 (length ?R)
              \<and> (\<forall>x \<in> set (r # rs). \<not> is_active x)"
      and "count_of s3 A = Some a" and "count_of s3 C = Some c"
      by simp_all
  qed
  from s3 obtain r rs where r3: "select_referral s3 B = r # rs"
    and len: "Suc (length rs) = max 1 (length ?R)"
    and ina: "\<forall>x \<in> set (r # rs). \<not> is_active x"
    by blast
  note t = reassign_tail[OF assms(5-8) r3 ina c3 assms(4,9,14), unfolded len]
  have run4: "run st [Start mA, Joined (m # ms), Left_chat m, Start mC] = handle s3 (Start mC)"
    by (simp add: s3_def)
  have run5: "run st [Start mA, Joined (m # ms), Left_chat m, Start mC, Joined (m # ms)]
                = handle (handle s3 (Start mC)) (Joined (m # ms))"
    by (simp add: s3_def)
  show ?thesis
    unfolding run4 run5 using t by simp
qed

theorem reassignment_counts_witness:
  "select_referral
     (run \<lparr>users = [user_row 1 0, user_row 2 0, user_row 3 0, user_row 5 0],
           referrals = [referral_row 5 2 False]\<rparr>
        [Start (start_from 2 (Some ''1'')), Joined [member_of 2], Left_chat (member_of 2),
         Start (start_from 2 (Some ''3''))]) 2
     = [referral_row 3 2 False]
   \<and> select_referral
     (run \<lparr>users = [user_row 1 0, user_row 2 0, user_row 3 0, user_row 5 0],
           referrals = [referral_row 5 2 False]\<rparr>
        [Start (start_from 2 (Some ''1'')), Joined [member_of 2], Left_chat (member_of 2),
         Start (start_from 2 (Some ''3'')), Joined [member_of 2]]) 2
     = [referral_row 3 2 True]
   \<and> count_of
     (run \<lparr>users = [user_row 1 0, user_row 2 0, user_row 3 0, user_row 5 0],
           referrals = [referral_row 5 2 False]\<rparr>
        [Start (start_from 2 (Some ''1'')), Joined [member_of 2], Left_chat (member_of 2),
         Start (start_from 2 (Some ''3'')), Joined [member_of 2]]) 3
     = Some 1
   \<and> count_of
     (run \<lparr>users = [user_row 1 0, user_row 2 0, user_row 3 0, user_row 5 0],
           referrals = [referral_row 5 2 False]\<rparr>
        [Start (start_from 2 (Some ''1'')), Joined [member_of 2], Left_chat (member_of 2),
         Start (start_from 2 (Some ''3'')), Joined [member_of 2]]) 1
     = Some 0"
proof -
  let ?st = "\<lparr>users = [user_row 1 0, user_row 2 0, user_row 3 0, user_row 5 0],
           referrals = [referral_row 5 2 False]\<rparr>"
  let ?mA = "start_from 2 (Some ''1'')"
  let ?mC = "start_from 2 (Some ''3'')"
  have mA: "from_id ?mA = 2" "start_match ?mA = Some ''1''"
    by (simp_all add: start_from_def)
  have mC: "from_id ?mC = 2" "start_match ?mC = Some ''3''"
    by (simp_all add: start_from_def)
  have pA: "int8in ''1'' = Some 1" by code_simp
  have pC: "int8in ''3'' = Some 3" by code_simp
  have d: "(1::int) \<noteq> 2" "(3::int) \<noteq> 2" "(1::int) \<noteq> 3" by simp_all
  have c: "count_of ?st 1 = Some 0" "count_of ?st 3 = Some 0"
    by (simp_all add: count_of_def select_user_def user_row_def)
  have z: "(0::int) \<le> 0" by simp
  have e: "select_referral ?st 2 = [\<lparr>referrer_id = 5, referred_id = 2, is_active = False\<rparr>]"
    by (simp add: select_referral_def referral_row_def)
  have h: "select_referral ?st 2 = []
         \<or> \<not> is_active (hd (select_referral ?st 2))
         \<or> ((\<forall>r \<in> set (select_referral ?st 2). is_active r)
            \<and> referrer_id (hd (select_referral ?st 2)) \<noteq> 1
            \<and> referrer_id (hd (select_referral ?st 2)) \<noteq> 3)"
    unfolding e by simp
  have b: "member_id (member_of 2) = 2" by (simp add: member_of_def)
  from reassignment_counts[OF mA pA d(1) mC pC d(2) d(3) c(1) z c(2) h b, of "[]"]
  show ?thesis unfolding e by (simp add: referral_row_def)
qed

text \<open>
  The condition on \<open>B\<close>'s rows is needed for \<open>A\<close>'s count: when \<open>B\<close> enters as an
  active referral of \<open>A\<close>, the registration and the join change nothing, and the leave
  takes \<open>A\<close> from 1 to 0, where it stays.
\<close>

lemma reassignment_of_active_referral:
  "count_of \<lparr>users = [user_row 1 1, user_row 2 0, user_row 3 0],
             referrals = [referral_row 1 2 True]\<rparr> 1 = Some 1
   \<and> count_of
       (run \<lparr>users = [user_row 1 1, user_row 2 0, user_row 3 0],
             referrals = [referral_row 1 2 True]\<rparr>
          [Start (start_from 2 (Some ''1'')), Joined [member_of 2], Left_chat (member_of 2),
           Start (start_from 2 (Some ''3'')), Joined [member_of 2]]) 1
     = Some 0"
  by code_simp

section \<open>Leaving the group\<close>

text \<open>
  C7. When the leaving member has no active referral row (the row is inactive, or
  there is none) the listener changes nothing and sends nothing. In every case the
  set of user rows is the same afterwards, and each user's count is at least the
  old count minus one and is not negative if the old count was not.
\<close>

theorem left_floor:
  "((\<forall>r \<in> set (referrals st). referred_id r = member_id m \<longrightarrow> \<not> is_active r)
      \<longrightarrow> on_left_chat_member st m = (st, []))
   \<and> user_ids (fst (on_left_chat_member st m)) = user_ids st
   \<and> (\<forall>u c. count_of st u = Some c \<longrightarrow>
         (\<exists>c'. count_of (fst (on_left_chat_member st m)) u = Some c'
               \<and> c - 1 \<le> c' \<and> (0 \<le> c \<longrightarrow> 0 \<le> c')))"
proof -
  have a: "on_left_chat_member st m = (st, [])"
    if "\<forall>r \<in> set (referrals st). referred_id r = member_id m \<longrightarrow> \<not> is_active r"
  proof -
    from that have "select_referrer st (member_id m) True = []"
      by (auto simp: select_referrer_def filter_empty_conv)
    then show ?thesis by (simp add: on_left_chat_member_def)
  qed
  have b: "user_ids (fst (on_left_chat_member st m)) = user_ids st"
    by (simp add: on_left_chat_member_def Let_def split: list.splits)
  have c: "\<exists>c'. count_of (fst (on_left_chat_member st m)) u = Some c'
               \<and> c - 1 \<le> c' \<and> (0 \<le> c \<longrightarrow> 0 \<le> c')"
    if "count_of st u = Some c" for u c
    using that
    by (auto simp: on_left_chat_member_def Let_def count_of_decrement_count split: list.splits)
  from a b c show ?thesis by blast
qed

theorem left_floor_witness:
  "on_left_chat_member \<lparr>users = [user_row 1 0], referrals = [referral_row 1 2 False]\<rparr>
       (member_of 2)
     = (\<lparr>users = [user_row 1 0], referrals = [referral_row 1 2 False]\<rparr>, [])
   \<and> count_of
       (fst (on_left_chat_member \<lparr>users = [user_row 1 0], referrals = [referral_row 1 2 True]\<rparr>
               (member_of 2))) 1
     = Some 0"
proof -
  let ?st = "\<lparr>users = [user_row 1 0], referrals = [referral_row 1 2 False]\<rparr>"
  let ?st2 = "\<lparr>users = [user_row 1 0], referrals = [referral_row 1 2 True]\<rparr>"
  have h: "\<forall>r \<in> set (referrals ?st). referred_id r = member_id (member_of 2) \<longrightarrow> \<not> is_active r"
    by (simp add: referral_row_def)
  have c: "count_of ?st2 1 = Some 0" by (simp add: count_of_def select_user_def user_row_def)
  have v: "count_of (fst (on_left_chat_member ?st2 (member_of 2))) 1 = Some 0"
    by code_simp
  from left_floor[of ?st "member_of 2"] h
  have "on_left_chat_member ?st (member_of 2) = (?st, [])" by blast
  moreover from left_floor[of ?st2 "member_of 2"] c
  have "\<exists>c'. count_of (fst (on_left_chat_member ?st2 (member_of 2))) 1 = Some c' \<and> 0 \<le> c'"
    by auto
  ultimately show ?thesis using v by simp
qed

section \<open>Rank\<close>

lemma length_rank_scan [simp]: "length (rank_scan pos prev ks) = length ks"
  by (induction ks arbitrary: pos prev) (simp_all add: Let_def)

lemma rank_scan_nth:
  assumes "sorted_wrt (\<lambda>a b. b \<le> a) (pre @ ks)"
    and "pos = Suc (length pre)"
    and "prev = (if pre = [] then None
                 else Some (last pre, Suc (length (filter (\<lambda>k. last pre < k) pre))))"
    and "i < length ks"
  shows "rank_scan pos prev ks ! i = Suc (length (filter (\<lambda>k. ks ! i < k) (pre @ ks)))"
  using assms
proof (induction ks arbitrary: pre pos prev i)
  case Nil
  then show ?case by simp
next
  case (Cons k ks)
  define rk where "rk = (case prev of None \<Rightarrow> pos | Some (k', rk') \<Rightarrow> if k' = k then rk' else pos)"
  have later: "filter (\<lambda>x. k < x) ks = []"
    using Cons.prems(1) by (auto simp: sorted_wrt_append filter_empty_conv)
  have rk: "rk = Suc (length (filter (\<lambda>x. k < x) pre))"
  proof (cases "pre = []")
    case True
    with Cons.prems show ?thesis by (simp add: rk_def)
  next
    case False
    then have lp: "last pre \<in> set pre" by simp
    show ?thesis
    proof (cases "last pre = k")
      case True
      with False Cons.prems show ?thesis by (simp add: rk_def)
    next
      case neq: False
      from Cons.prems(1) lp have "k \<le> last pre" by (auto simp: sorted_wrt_append)
      with neq have lt: "k < last pre" by simp
      have "\<forall>x \<in> set pre. last pre \<le> x"
      proof
        fix x assume "x \<in> set pre"
        from False obtain ys where pre: "pre = ys @ [last pre]"
          by (metis append_butlast_last_id)
        from Cons.prems(1) have "sorted_wrt (\<lambda>a b. b \<le> a) pre" by (simp add: sorted_wrt_append)
        then have "sorted_wrt (\<lambda>a b. b \<le> a) (ys @ [last pre])" using pre by simp
        then have "\<forall>y \<in> set ys. last pre \<le> y" by (simp add: sorted_wrt_append)
        with \<open>x \<in> set pre\<close> pre show "last pre \<le> x"
          by (metis Un_iff empty_iff empty_set insert_iff list.simps(15) order_refl set_append)
      qed
      with lt have "filter (\<lambda>x. k < x) pre = pre" by (auto simp: filter_id_conv)
      with False neq Cons.prems show ?thesis by (simp add: rk_def)
    qed
  qed
  show ?case
  proof (cases i)
    case 0
    then show ?thesis using rk later by (simp add: rk_def Let_def)
  next
    case (Suc j)
    have s: "sorted_wrt (\<lambda>a b. b \<le> a) ((pre @ [k]) @ ks)" using Cons.prems(1) by simp
    have p: "Suc pos = Suc (length (pre @ [k]))" using Cons.prems(2) by simp
    have pv: "Some (k, rk) = (if pre @ [k] = [] then None
                 else Some (last (pre @ [k]),
                            Suc (length (filter (\<lambda>x. last (pre @ [k]) < x) (pre @ [k])))))"
      using rk by simp
    have j: "j < length ks" using Cons.prems(4) Suc by simp
    from Cons.IH[OF s p pv j] Suc show ?thesis
      by (simp add: rk_def Let_def)
  qed
qed

lemma rank_scan_sorted:
  assumes "sorted_wrt (\<lambda>a b. b \<le> a) ks" "i < length ks"
  shows "rank_scan 1 None ks ! i = Suc (length (filter (\<lambda>k. ks ! i < k) ks))"
  using rank_scan_nth[of "[]" ks 1 None i] assms by simp

lemma sorted_desc_order_by:
  "sorted_wrt (\<lambda>a b. b \<le> a) (map referral_count (order_by_count_desc rows))"
proof -
  have "sorted (map (\<lambda>u. - referral_count u) (order_by_count_desc rows))"
    by (simp add: order_by_count_desc_def)
  then show ?thesis
    by (simp add: sorted_wrt_map)
qed

lemma length_filter_order_by:
  "length (filter P (order_by_count_desc rows)) = length (filter P rows)"
  by (simp add: order_by_count_desc_def filter_sort)

lemma user_rank_eq:
  "user_rank st =
     map (\<lambda>r. (telegram_id r, referral_count r,
               Suc (length (filter (\<lambda>x. referral_count r < referral_count x) (users st)))))
       (order_by_count_desc (users st))"
proof -
  define rows where "rows = order_by_count_desc (users st)"
  have n: "rank_scan (Suc 0) None (map referral_count rows) ! i
             = Suc (length (filter (\<lambda>x. referral_count (rows ! i) < referral_count x) (users st)))"
    if "i < length rows" for i
  proof -
    have "rank_scan (Suc 0) None (map referral_count rows) ! i
            = Suc (length (filter (\<lambda>k. map referral_count rows ! i < k) (map referral_count rows)))"
      using rank_scan_sorted[of "map referral_count rows" i] that sorted_desc_order_by[of "users st"]
      by (simp add: rows_def)
    also have "\<dots> = Suc (length (filter (\<lambda>x. referral_count (rows ! i) < referral_count x) rows))"
      using that by (simp add: filter_map comp_def)
    also have "\<dots> = Suc (length (filter (\<lambda>x. referral_count (rows ! i) < referral_count x) (users st)))"
      by (simp add: rows_def length_filter_order_by)
    finally show ?thesis .
  qed
  show ?thesis
    unfolding user_rank_def Let_def rows_def[symmetric]
    by (rule nth_equalityI) (simp_all add: n)
qed

lemma find_Some_in_set: "find P xs = Some y \<Longrightarrow> y \<in> set xs \<and> P y"
  by (induction xs) (auto split: if_splits)

lemma select_by_id_distinct:
  assumes "distinct (map telegram_id xs)"
  shows "filter (\<lambda>r. telegram_id r = u) xs
           = (case find (\<lambda>r. telegram_id r = u) xs of None \<Rightarrow> [] | Some r \<Rightarrow> [r])"
  using assms
proof (induction xs)
  case Nil
  then show ?case by simp
next
  case (Cons x xs)
  show ?case
  proof (cases "telegram_id x = u")
    case True
    with Cons.prems have "\<forall>y \<in> set xs. telegram_id y \<noteq> u" by (auto simp: image_iff)
    then have "filter (\<lambda>r. telegram_id r = u) xs = []" by (simp add: filter_empty_conv)
    with True show ?thesis by simp
  next
    case False
    with Cons show ?thesis by simp
  qed
qed

text \<open>
  C6. With \<open>telegram_id\<close> a key of \<open>users\<close>, the rank handler answers a user that
  has a row with a positive count \<open>c\<close> with that count and the position
  \<open>1 + \<close> the number of rows whose count is strictly greater than \<open>c\<close>, so equal counts
  share a position; a user without a row, or with a count that is not positive, is
  told that they have no referrals yet. For the counts 5, 5, 3, 0 the answers are
  1, 1, 3 and "no referrals yet", as evaluated after the theorem.
\<close>

theorem rank_is_one_plus_greater:
  assumes "distinct (user_ids st)"
  shows "on_rank st u =
     [(Chat u,
       case count_of st u of
         None \<Rightarrow> No_referrals_yet
       | Some c \<Rightarrow>
           if 0 < c
           then Rank_reply c (1 + length (filter (\<lambda>x. c < referral_count x) (users st)))
           else No_referrals_yet)]"
proof -
  let ?P = "\<lambda>r. telegram_id r = u"
  have f: "filter ?P (order_by_count_desc (users st))
             = (case find ?P (users st) of None \<Rightarrow> [] | Some r \<Rightarrow> [r])"
    using select_by_id_distinct[of "users st" u] assms
    by (simp add: order_by_count_desc_def filter_sort user_ids_def split: option.splits)
  have q: "rankQuery st u =
     map (\<lambda>r. (Suc (length (filter (\<lambda>x. referral_count r < referral_count x) (users st))),
               referral_count r))
       (filter ?P (order_by_count_desc (users st)))"
    by (simp add: rankQuery_def user_rank_eq filter_map comp_def)
  show ?thesis
    by (simp add: on_rank_def q f count_of_find split: option.splits)
qed

theorem rank_is_one_plus_greater_witness:
  "on_rank \<lparr>users = [user_row 1 5, user_row 2 5, user_row 3 3, user_row 4 0], referrals = []\<rparr> 1
     = [(Chat 1, Rank_reply 5 1)]
   \<and> on_rank \<lparr>users = [user_row 1 5, user_row 2 5, user_row 3 3, user_row 4 0], referrals = []\<rparr> 2
     = [(Chat 2, Rank_reply 5 1)]
   \<and> on_rank \<lparr>users = [user_row 1 5, user_row 2 5, user_row 3 3, user_row 4 0], referrals = []\<rparr> 3
     = [(Chat 3, Rank_reply 3 3)]
   \<and> on_rank \<lparr>users = [user_row 1 5, user_row 2 5, user_row 3 3, user_row 4 0], referrals = []\<rparr> 4
     = [(Chat 4, No_referrals_yet)]
   \<and> on_rank \<lparr>users = [user_row 1 5, user_row 2 5, user_row 3 3, user_row 4 0], referrals = []\<rparr> 9
     = [(Chat 9, No_referrals_yet)]"
proof -
  let ?st = "\<lparr>users = [user_row 1 5, user_row 2 5, user_row 3 3, user_row 4 0], referrals = []\<rparr>"
  have d: "distinct (user_ids ?st)" by (simp add: user_ids_def user_row_def)
  have c: "count_of ?st 1 = Some 5" "count_of ?st 2 = Some 5" "count_of ?st 3 = Some 3"
    "count_of ?st 4 = Some 0" "count_of ?st 9 = None"
    by (simp_all add: count_of_def select_user_def user_row_def)
  from rank_is_one_plus_greater[OF d, of 1] rank_is_one_plus_greater[OF d, of 2]
    rank_is_one_plus_greater[OF d, of 3] rank_is_one_plus_greater[OF d, of 4]
    rank_is_one_plus_greater[OF d, of 9] c
  show ?thesis by (simp add: user_row_def)
qed

section \<open>Broadcast results\<close>

lemma broadcast_loop_eq:
  "broadcast_loop send message ids (st, s, f, out) =
     (st\<lparr>users := filter (\<lambda>u. \<not> (telegram_id u \<in> set ids
                                     \<and> send (telegram_id u) = Rejected (Some 403))) (users st)\<rparr>,
      s + length (filter (\<lambda>i. send i = Delivered) ids),
      f + length (filter (\<lambda>i. send i \<noteq> Delivered) ids),
      out @ map (\<lambda>i. (Chat i, Broadcast_text message)) ids)"
proof (induction ids arbitrary: st s f out)
  case Nil
  then show ?case by simp
next
  case (Cons i ids)
  show ?case
  proof (cases "send i")
    case Delivered
    then have "filter (\<lambda>u. \<not> (telegram_id u \<in> set (i # ids) \<and> send (telegram_id u) = Rejected (Some 403))) (users st)
             = filter (\<lambda>u. \<not> (telegram_id u \<in> set ids \<and> send (telegram_id u) = Rejected (Some 403))) (users st)"
      by (intro filter_cong) auto
    with Delivered show ?thesis by (simp add: Cons.IH)
  next
    case (Rejected status)
    show ?thesis
    proof (cases "status = Some 403")
      case True
      have "filter (\<lambda>u. \<not> (telegram_id u \<in> set ids \<and> send (telegram_id u) = Rejected (Some 403)))
               (filter (\<lambda>u. telegram_id u \<noteq> i) (users st))
          = filter (\<lambda>u. \<not> (telegram_id u \<in> set (i # ids) \<and> send (telegram_id u) = Rejected (Some 403))) (users st)"
        using True Rejected by (auto intro!: filter_cong)
      with True Rejected show ?thesis by (simp add: Cons.IH delete_user_def)
    next
      case False
      then have "filter (\<lambda>u. \<not> (telegram_id u \<in> set (i # ids) \<and> send (telegram_id u) = Rejected (Some 403))) (users st)
             = filter (\<lambda>u. \<not> (telegram_id u \<in> set ids \<and> send (telegram_id u) = Rejected (Some 403))) (users st)"
        using Rejected by (intro filter_cong) auto
      with False Rejected show ?thesis by (simp add: Cons.IH)
    qed
  qed
qed

lemma length_filter_split:
  "length (filter P xs) + length (filter (\<lambda>x. \<not> P x) xs) = length xs"
  by (induction xs) auto

lemma broadcastMessage_eq:
  "broadcastMessage send st message =
     (st\<lparr>users := filter (\<lambda>u. send (telegram_id u) \<noteq> Rejected (Some 403)) (users st)\<rparr>,
      \<lparr>total = length (users st),
       success = length (filter (\<lambda>i. send i = Delivered) (user_ids st)),
       failed = length (filter (\<lambda>i. send i \<noteq> Delivered) (user_ids st))\<rparr>,
      map (\<lambda>i. (Chat i, Broadcast_text message)) (user_ids st))"
proof -
  have "filter (\<lambda>u. \<not> (telegram_id u \<in> set (map telegram_id (users st))
                        \<and> send (telegram_id u) = Rejected (Some 403))) (users st)
        = filter (\<lambda>u. send (telegram_id u) \<noteq> Rejected (Some 403)) (users st)"
    by (intro filter_cong) auto
  then show ?thesis
    using length_filter_split[of "\<lambda>i. send i = Delivered" "user_ids st"]
    by (simp add: broadcastMessage_def broadcast_loop_eq user_ids_def)
qed

text \<open>
  C9. For a message that is not blank, the endpoint answers with the two counters of
  the loop. One send is attempted for each row of \<open>users\<close> as it was at the start,
  in order; the counters add up to the number of rows. When exactly one recipient is
  not delivered to and that send was rejected with status 403, the answer is
  \<open>n - 1\<close> successes and 1 failure, and that recipient has no row afterwards.
\<close>

theorem broadcast_totals:
  assumes "trim message \<noteq> []"
  shows "\<exists>st' s f out.
           broadcast_endpoint send st (Str message) = (st', Broadcast_completed s f, out)
         \<and> map fst out = map Chat (user_ids st)
         \<and> s + f = length (users st)
         \<and> (\<forall>b. filter (\<lambda>i. send i \<noteq> Delivered) (user_ids st) = [b]
                  \<and> send b = Rejected (Some 403)
               \<longrightarrow> s = length (users st) - 1 \<and> f = 1 \<and> b \<notin> set (user_ids st'))"
proof -
  have ne: "message \<noteq> []" using assms by (auto simp: trim_def)
  let ?ids = "user_ids st"
  let ?s = "length (filter (\<lambda>i. send i = Delivered) ?ids)"
  let ?f = "length (filter (\<lambda>i. send i \<noteq> Delivered) ?ids)"
  let ?st' = "st\<lparr>users := filter (\<lambda>u. send (telegram_id u) \<noteq> Rejected (Some 403)) (users st)\<rparr>"
  let ?out = "map (\<lambda>i. (Chat i, Broadcast_text message)) ?ids"
  have e: "broadcast_endpoint send st (Str message) = (?st', Broadcast_completed ?s ?f, ?out)"
    using assms ne by (simp add: broadcast_endpoint_def broadcastMessage_eq)
  have sum: "?s + ?f = length (users st)"
    using length_filter_split[of "\<lambda>i. send i = Delivered" ?ids] by (simp add: user_ids_def)
  have one: "?s = length (users st) - 1 \<and> ?f = 1 \<and> b \<notin> set (user_ids ?st')"
    if "filter (\<lambda>i. send i \<noteq> Delivered) ?ids = [b]" "send b = Rejected (Some 403)" for b
  proof -
    from that(1) have f1: "?f = 1" by simp
    with sum have "?s = length (users st) - 1" by simp
    moreover have "b \<notin> set (user_ids ?st')" using that(2) by (auto simp: user_ids_def)
    ultimately show ?thesis using f1 by simp
  qed
  show ?thesis
    using e sum one by (intro exI[of _ ?st'] exI[of _ ?s] exI[of _ ?f] exI[of _ ?out])
      (simp add: comp_def)
qed

theorem broadcast_totals_witness:
  "broadcast_endpoint (\<lambda>i. if i = 2 then Rejected (Some 403) else Delivered)
      \<lparr>users = [user_row 1 0, user_row 2 0, user_row 3 0], referrals = []\<rparr> (Str ''hi'')
     = (\<lparr>users = [user_row 1 0, user_row 3 0], referrals = []\<rparr>,
        Broadcast_completed 2 1,
        [(Chat 1, Broadcast_text ''hi''), (Chat 2, Broadcast_text ''hi''),
         (Chat 3, Broadcast_text ''hi'')])"
proof -
  let ?send = "\<lambda>i::int. if i = 2 then Rejected (Some 403) else Delivered"
  let ?st = "\<lparr>users = [user_row 1 0, user_row 2 0, user_row 3 0], referrals = []\<rparr>"
  have t: "trim ''hi'' \<noteq> []" by code_simp
  have one: "filter (\<lambda>i. ?send i \<noteq> Delivered) (user_ids ?st) = [2]" "?send 2 = Rejected (Some 403)"
    by (simp_all add: user_ids_def user_row_def)
  have n: "length (users ?st) = 3" by simp
  from broadcast_totals[OF t, of ?send ?st] obtain st' s f out where
    e: "broadcast_endpoint ?send ?st (Str ''hi'') = (st', Broadcast_completed s f, out)"
    and o: "map fst out = map Chat (user_ids ?st)"
    and b: "\<forall>b. filter (\<lambda>i. ?send i \<noteq> Delivered) (user_ids ?st) = [b]
                  \<and> ?send b = Rejected (Some 403)
               \<longrightarrow> s = length (users ?st) - 1 \<and> f = 1 \<and> b \<notin> set (user_ids st')"
    by blast
  from b one n have sf: "s = 2" "f = 1" by auto
  have v: "fst (broadcast_endpoint ?send ?st (Str ''hi''))
             = \<lparr>users = [user_row 1 0, user_row 3 0], referrals = []\<rparr>"
    "snd (snd (broadcast_endpoint ?send ?st (Str ''hi'')))
             = [(Chat 1, Broadcast_text ''hi''), (Chat 2, Broadcast_text ''hi''),
                (Chat 3, Broadcast_text ''hi'')]"
    by (simp_all add: broadcast_endpoint_def broadcastMessage_eq user_ids_def user_row_def trim_def
        is_space_def)
  from e sf v show ?thesis by simp
qed

section \<open>The count invariant\<close>

text \<open>
  C1. The property claimed is that, after every sequence of start, join and leave
  events from the empty store, each user's \<open>referral_count\<close> equals the number of
  active referral rows that name the user as referrer. The handlers break it in this
  run: user 2 starts the bot with user 1's link before user 1 has ever started it,
  joins the group, and then user 1 starts the bot (with user 3's link). The join marks
  the referral active and its increment matches no row; the get-or-create then gives
  user 1 a row with count 0. User 1 ends with one active referral and a
  \<open>referral_count\<close> of 0.
\<close>

theorem count_drifts_when_referrer_starts_late:
  "count_of
     (run empty_store
        [Start (start_from 2 (Some ''1'')), Joined [member_of 2],
         Start (start_from 1 (Some ''3''))]) 1
     = Some 0
   \<and> active_referrals
     (run empty_store
        [Start (start_from 2 (Some ''1'')), Joined [member_of 2],
         Start (start_from 1 (Some ''3''))]) 1
     = 1"
  by code_simp

subsection \<open>Sequences in which every referrer has a row\<close>

text \<open>
  Over the decimal reading, along every sequence in which each start parameter that
  is read names a referrer that already has a user row, the three handlers keep
  \<open>consistent\<close>, and so every count read from the store is the number of the user's
  active referrals. The run above is not such a sequence.
\<close>

lemma only_row:
  assumes "distinct (map referred_id rs)" "r \<in> set rs"
  shows "filter (\<lambda>x. referred_id x = referred_id r) rs = [r]"
  using assms
proof (induction rs)
  case Nil
  then show ?case by simp
next
  case (Cons x xs)
  show ?case
  proof (cases "x = r")
    case True
    with Cons.prems have "\<forall>y \<in> set xs. referred_id y \<noteq> referred_id r" by (auto simp: image_iff)
    then have "filter (\<lambda>x. referred_id x = referred_id r) xs = []"
      by (simp add: filter_empty_conv)
    with True show ?thesis by simp
  next
    case False
    with Cons.prems have r: "r \<in> set xs" by simp
    with Cons.prems have "referred_id x \<noteq> referred_id r" by (auto simp: image_iff)
    with Cons r show ?thesis by simp
  qed
qed

lemma count_after_row_update:
  assumes "distinct (map referred_id rs)" "r \<in> set rs"
  shows "int (length (filter P (map (\<lambda>x. if referred_id x = referred_id r then f x else x) rs)))
           = int (length (filter P rs)) - of_bool (P r) + of_bool (P (f r))"
  using assms
proof (induction rs)
  case Nil
  then show ?case by simp
next
  case (Cons x xs)
  show ?case
  proof (cases "x = r")
    case True
    with Cons.prems have "\<forall>y \<in> set xs. referred_id y \<noteq> referred_id r" by (auto simp: image_iff)
    then have "map (\<lambda>x. if referred_id x = referred_id r then f x else x) xs = xs"
      by (intro map_idI) simp
    with True show ?thesis by simp
  next
    case False
    with Cons.prems have r: "r \<in> set xs" by simp
    with Cons.prems have "referred_id x \<noteq> referred_id r" by (auto simp: image_iff)
    with Cons r show ?thesis by simp
  qed
qed

lemma no_row_update:
  assumes "\<forall>x \<in> set rs. referred_id x \<noteq> b"
  shows "map (\<lambda>x. if referred_id x = b then f x else x) rs = rs"
  using assms by (intro map_idI) simp

lemma active_referrals_users_update [simp]:
  "active_referrals (st\<lparr>users := us\<rparr>) u = active_referrals st u"
  by (simp add: active_referrals_def)

lemma active_referrals_getOrCreateUser [simp]:
  "active_referrals (fst (getOrCreateUser st t un fn)) u = active_referrals st u"
  by (simp add: active_referrals_def)

lemma consistent_getOrCreateUser:
  assumes "consistent st"
  shows "consistent (fst (getOrCreateUser st t un fn))"
proof (cases "select_user st t = []")
  case False
  with assms show ?thesis by (simp add: getOrCreateUser_present)
next
  case True
  then have "t \<notin> set (user_ids st)"
    by (auto simp: select_user_def user_ids_def filter_empty_conv)
  with assms have "\<forall>r \<in> set (referrals st). referrer_id r \<noteq> t"
    by (auto simp: consistent_def)
  then have "active_referrals st t = 0"
    by (simp add: active_referrals_def filter_empty_conv)
  with assms True show ?thesis
    by (auto simp: consistent_def users_getOrCreateUser user_ids_def)
qed

lemma consistent_insert:
  assumes "consistent st" "select_referral st b = []" "a \<in> set (user_ids st)"
  shows "consistent (st\<lparr>referrals := referrals st
                         @ [\<lparr>referrer_id = a, referred_id = b, is_active = False\<rparr>]\<rparr>)"
proof -
  from assms(2) have "b \<notin> referred_id ` set (referrals st)"
    by (auto simp: select_referral_def filter_empty_conv)
  with assms(1,3) show ?thesis
    by (auto simp: consistent_def active_referrals_def)
qed

lemma distinct_referred_map:
  assumes "\<And>x. referred_id (f x) = referred_id x"
  shows "distinct (map referred_id (map f rs)) = distinct (map referred_id rs)"
proof -
  have "referred_id \<circ> f = referred_id" using assms by (simp add: fun_eq_iff)
  then show ?thesis by simp
qed

lemma consistent_reassign:
  assumes "consistent st" "select_referral st b = r # rs" "\<not> is_active r"
    and "a \<in> set (user_ids st)"
  shows "consistent (st\<lparr>referrals :=
                         map (\<lambda>x. if referred_id x = b then x\<lparr>referrer_id := a\<rparr> else x)
                           (referrals st)\<rparr>)"
proof -
  let ?upd = "\<lambda>x. if referred_id x = b then x\<lparr>referrer_id := a\<rparr> else x"
  from assms(2) have "r \<in> set (select_referral st b)" by simp
  then have r: "r \<in> set (referrals st)" "referred_id r = b"
    by (auto simp: select_referral_def)
  from assms(1) have d: "distinct (map referred_id (referrals st))" by (simp add: consistent_def)
  have dd: "distinct (map referred_id (map ?upd (referrals st)))"
    by (subst distinct_referred_map) (simp_all add: d)
  have cnt: "active_referrals (st\<lparr>referrals := map ?upd (referrals st)\<rparr>) u = active_referrals st u"
    for u
    using count_after_row_update[OF d r(1), of "\<lambda>x. referrer_id x = u \<and> is_active x"
        "\<lambda>x. x\<lparr>referrer_id := a\<rparr>"] r(2) assms(3)
    by (simp add: active_referrals_def)
  have known: "\<forall>x \<in> set (map ?upd (referrals st)). referrer_id x \<in> set (user_ids st)"
    using assms(1,4) by (auto simp: consistent_def)
  show ?thesis
    unfolding consistent_def
  proof (intro conjI)
    show "distinct (map referred_id (referrals (st\<lparr>referrals := map ?upd (referrals st)\<rparr>)))"
      using dd by simp
    show "\<forall>x \<in> set (referrals (st\<lparr>referrals := map ?upd (referrals st)\<rparr>)).
            referrer_id x \<in> set (user_ids (st\<lparr>referrals := map ?upd (referrals st)\<rparr>))"
      using known by (simp add: user_ids_def)
    show "\<forall>u \<in> set (users (st\<lparr>referrals := map ?upd (referrals st)\<rparr>)).
            referral_count u
              = int (active_referrals (st\<lparr>referrals := map ?upd (referrals st)\<rparr>) (telegram_id u))"
      using assms(1) by (simp add: cnt consistent_def)
  qed
qed

lemma select_referrer_row:
  assumes "select_referrer st b v = a # as"
  obtains r where "r \<in> set (referrals st)" "referred_id r = b" "is_active r = v" "referrer_id r = a"
proof -
  from assms have "a \<in> set (select_referrer st b v)" by simp
  then show ?thesis using that by (auto simp: select_referrer_def)
qed

lemma consistent_set_active:
  assumes "consistent st" "r \<in> set (referrals st)" "is_active r \<noteq> v"
  shows "distinct (map referred_id (referrals (set_active st (referred_id r) v)))"
    and "\<forall>x \<in> set (referrals (set_active st (referred_id r) v)). referrer_id x \<in> set (user_ids st)"
    and "int (active_referrals (set_active st (referred_id r) v) u)
           = int (active_referrals st u)
             + (if referrer_id r = u then (if v then 1 else - 1) else 0)"
proof -
  let ?upd = "\<lambda>x. if referred_id x = referred_id r then x\<lparr>is_active := v\<rparr> else x"
  from assms(1) have d: "distinct (map referred_id (referrals st))" by (simp add: consistent_def)
  have "distinct (map referred_id (map ?upd (referrals st)))"
    by (subst distinct_referred_map) (simp_all add: d)
  then show "distinct (map referred_id (referrals (set_active st (referred_id r) v)))"
    by (simp add: set_active_def)
  show "\<forall>x \<in> set (referrals (set_active st (referred_id r) v)). referrer_id x \<in> set (user_ids st)"
    using assms(1) by (auto simp: consistent_def set_active_def)
  show "int (active_referrals (set_active st (referred_id r) v) u)
           = int (active_referrals st u)
             + (if referrer_id r = u then (if v then 1 else - 1) else 0)"
    using count_after_row_update[OF d assms(2), of "\<lambda>x. referrer_id x = u \<and> is_active x"
        "\<lambda>x. x\<lparr>is_active := v\<rparr>"] assms(3)
    by (auto simp: active_referrals_def set_active_def)
qed

lemma consistent_join:
  assumes "consistent st" "select_referrer st b False = a # as"
  shows "consistent (increment_count (set_active st b True) a)"
proof -
  from assms(2) obtain r where r: "r \<in> set (referrals st)" "referred_id r = b"
    "\<not> is_active r" "referrer_id r = a"
    by (auto elim: select_referrer_row)
  from r(3) have ne: "is_active r \<noteq> True" by simp
  note s = consistent_set_active[OF assms(1) r(1) ne, unfolded r(2)]
  show ?thesis
    unfolding consistent_def
  proof (intro conjI ballI)
    show "distinct (map referred_id (referrals (increment_count (set_active st b True) a)))"
      using s(1) by simp
  next
    fix x assume "x \<in> set (referrals (increment_count (set_active st b True) a))"
    then show "referrer_id x \<in> set (user_ids (increment_count (set_active st b True) a))"
      using s(2) by simp
  next
    fix u assume "u \<in> set (users (increment_count (set_active st b True) a))"
    then obtain u0 where u0: "u0 \<in> set (users st)"
      "u = (if telegram_id u0 = a then u0\<lparr>referral_count := referral_count u0 + 1\<rparr> else u0)"
      by (auto simp: increment_count_def)
    from assms(1) u0(1) have c: "referral_count u0 = int (active_referrals st (telegram_id u0))"
      by (simp add: consistent_def)
    have "active_referrals (increment_count (set_active st b True) a) (telegram_id u)
            = active_referrals (set_active st b True) (telegram_id u)"
      by (simp add: active_referrals_def)
    with s(3)[of "telegram_id u"] u0(2) c r(4)
    show "referral_count u
            = int (active_referrals (increment_count (set_active st b True) a) (telegram_id u))"
      by (auto split: if_splits)
  qed
qed

lemma consistent_left:
  assumes "consistent st" "select_referrer st b True = a # as"
  shows "consistent (set_active (decrement_count st a) b False)"
proof -
  from assms(2) obtain r where r: "r \<in> set (referrals st)" "referred_id r = b"
    "is_active r" "referrer_id r = a"
    by (auto elim: select_referrer_row)
  from r(3) have ne: "is_active r \<noteq> False" by simp
  note s = consistent_set_active[OF assms(1) r(1) ne, unfolded r(2)]
  have sw: "set_active (decrement_count st a) b False
              = (set_active st b False)\<lparr>users := users (decrement_count st a)\<rparr>"
    by (simp add: set_active_def decrement_count_def)
  have pos: "1 \<le> int (active_referrals st a)"
  proof -
    from r have "r \<in> set (filter (\<lambda>x. referrer_id x = a \<and> is_active x) (referrals st))" by simp
    then have "filter (\<lambda>x. referrer_id x = a \<and> is_active x) (referrals st) \<noteq> []"
      by (metis empty_iff empty_set)
    then show ?thesis by (cases "filter (\<lambda>x. referrer_id x = a \<and> is_active x) (referrals st)")
        (simp_all add: active_referrals_def)
  qed
  show ?thesis
    unfolding consistent_def sw
  proof (intro conjI ballI)
    show "distinct (map referred_id (referrals ((set_active st b False)\<lparr>users := users (decrement_count st a)\<rparr>)))"
      using s(1) by simp
  next
    fix x assume "x \<in> set (referrals ((set_active st b False)\<lparr>users := users (decrement_count st a)\<rparr>))"
    then have "referrer_id x \<in> set (user_ids st)" using s(2) by simp
    also have "user_ids st = user_ids ((set_active st b False)\<lparr>users := users (decrement_count st a)\<rparr>)"
      using user_ids_decrement_count[of st a] by (simp add: user_ids_def)
    finally show "referrer_id x \<in> set (user_ids ((set_active st b False)\<lparr>users := users (decrement_count st a)\<rparr>))" .
  next
    fix u assume "u \<in> set (users ((set_active st b False)\<lparr>users := users (decrement_count st a)\<rparr>))"
    then obtain u0 where u0: "u0 \<in> set (users st)"
      "u = (if telegram_id u0 = a then u0\<lparr>referral_count := max 0 (referral_count u0 - 1)\<rparr> else u0)"
      by (auto simp: decrement_count_def)
    from assms(1) u0(1) have c: "referral_count u0 = int (active_referrals st (telegram_id u0))"
      by (simp add: consistent_def)
    from s(3)[of "telegram_id u"] u0(2) c r(4) pos
    show "referral_count u
            = int (active_referrals ((set_active st b False)\<lparr>users := users (decrement_count st a)\<rparr>)
                     (telegram_id u))"
      by (auto split: if_splits)
  qed
qed

lemma referral_case_consistent:
  assumes "consistent st" "\<And>a. int8in p = Some a \<Longrightarrow> a \<in> set (user_ids st)"
    and "referral_case int8in st chatId userId p = Inr (st', out)"
  shows "consistent st'"
proof (cases "select_referral st userId")
  case Nil
  with assms(3) obtain a where a: "int8in p = Some a"
    and st': "st' = st\<lparr>referrals := referrals st
                        @ [\<lparr>referrer_id = a, referred_id = userId, is_active = False\<rparr>]\<rparr>"
    by (auto simp: referral_case_def insert_referral_def split: option.splits)
  from consistent_insert[OF assms(1) Nil assms(2)[OF a]] st' show ?thesis by simp
next
  case (Cons r rs)
  show ?thesis
  proof (cases "is_active r")
    case True
    with Cons assms(1,3) show ?thesis by (simp add: referral_case_def)
  next
    case False
    with Cons assms(3) obtain a where a: "int8in p = Some a"
      and st': "st' = st\<lparr>referrals :=
                          map (\<lambda>x. if referred_id x = userId then x\<lparr>referrer_id := a\<rparr> else x)
                            (referrals st)\<rparr>"
      by (auto simp: referral_case_def update_referrer_def split: option.splits)
    from consistent_reassign[OF assms(1) Cons False assms(2)[OF a]] st' show ?thesis by simp
  qed
qed

lemma on_start_consistent:
  assumes "consistent st" "referrer_known st (Start msg)"
  shows "consistent (fst (on_start st msg))"
proof -
  let ?st1 = "fst (getOrCreateUser st (from_id msg) (from_username msg) (from_first_name msg))"
  have c1: "consistent ?st1" using assms(1) by (rule consistent_getOrCreateUser)
  show ?thesis
  proof (cases "start_match msg")
    case None
    with c1 show ?thesis by (simp add: on_start_def on_start_in_def Let_def)
  next
    case (Some p)
    have known: "a \<in> set (user_ids ?st1)" if "int8in p = Some a" for a
      using assms(2) Some that by (auto simp: referrer_known_def user_ids_getOrCreateUser)
    show ?thesis
    proof (cases "referral_case int8in ?st1 (chat_id msg) (from_id msg) p")
      case (Inl e)
      with Some c1 show ?thesis by (simp add: on_start_def on_start_in_def Let_def)
    next
      case (Inr res)
      obtain st' out where res: "res = (st', out)" by (cases res)
      from referral_case_consistent[OF c1 known] Inr res have "consistent st'" by simp
      with Some c1 Inr res show ?thesis by (simp add: on_start_def on_start_in_def Let_def)
    qed
  qed
qed

lemma handle_consistent:
  assumes "consistent st" "referrer_known st e"
  shows "consistent (handle st e)"
proof (cases e)
  case (Start msg)
  with assms show ?thesis by (simp add: on_start_consistent)
next
  case (Joined ms)
  with assms(1) show ?thesis
    by (auto simp: on_new_chat_members_def Let_def consistent_join split: list.splits)
next
  case (Left_chat m)
  with assms(1) show ?thesis
    by (auto simp: on_left_chat_member_def Let_def consistent_left split: list.splits)
qed

lemma run_consistent:
  assumes "consistent st" "referrers_known st evs"
  shows "consistent (run st evs)"
  using assms by (induction evs arbitrary: st) (simp_all add: handle_consistent)

lemma consistent_empty_store: "consistent empty_store"
  by (simp add: consistent_def empty_store_def)

lemma consistent_count_of:
  assumes "consistent st" "count_of st u = Some c"
  shows "c = int (active_referrals st u)"
proof -
  from assms(2) obtain row where "find (\<lambda>x. telegram_id x = u) (users st) = Some row"
    "referral_count row = c"
    by (auto simp: count_of_find)
  then have "row \<in> set (users st)" "telegram_id row = u" "referral_count row = c"
    by (auto simp: find_Some_iff)
  with assms(1) show ?thesis by (auto simp: consistent_def)
qed

theorem count_invariant_with_known_referrers:
  assumes "referrers_known empty_store evs"
    and "count_of (run empty_store evs) u = Some c"
  shows "c = int (active_referrals (run empty_store evs) u)"
  using consistent_count_of[OF run_consistent[OF consistent_empty_store assms(1)] assms(2)] .

lemma late_referrer_not_known:
  "\<not> referrers_known empty_store
        [Start (start_from 2 (Some ''1'')), Joined [member_of 2],
         Start (start_from 1 (Some ''3''))]"
  by code_simp

end
